theory Spec2Isabelle
  imports Main "HOL-Library.Word" "HOL-Library.Sublist"
begin

section \<open>Arena allocator (src/core/allocator.cc)\<close>

text \<open>
  The allocator plans byte offsets in a simulated address space. Its counters and
  offsets are \<open>size_t\<close> values, modelled as 64-bit words (arithmetic wraps). The
  members are \<open>used\<close>, \<open>peak\<close>, \<open>ptr\<close> (the address of the real buffer, \<open>0\<close> for
  \<open>nullptr\<close>) and \<open>freeBlocks\<close>, a \<open>std::map\<close> from offset to
  length (both \<open>size_t\<close>). The ordered map is an association list kept in ascending key order with
  one entry per key, which is the order its iterators visit.
\<close>

type_synonym size_t = "64 word"

text \<open>
  Modelled from the spec: the macro \<open>IT_ASSERT\<close> is not among the sources. A failed
  assertion is a fatal fault that ends the call at once and is not retried; the model
  returns \<open>Inl AssertionFailed\<close> from the call. The two other faults stand for
  reads the source does not guard: a call through a null pointer, and an index
  outside a vector.
\<close>

datatype error = AssertionFailed | NullPointer | OutOfRange

record Allocator =
  used :: size_t
  peak :: size_t
  ptr :: size_t
  freeBlocks :: "(size_t \<times> size_t) list"

text \<open>\<open>alignment = sizeof(uint64_t)\<close>, set by the constructor.\<close>

definition alignment :: size_t where
  "alignment = 8"

text \<open>The constructor: \<open>used = 0\<close>, \<open>peak = 0\<close>, \<open>ptr = nullptr\<close>, empty map.\<close>

definition Allocator_init :: Allocator where
  "Allocator_init = \<lparr>used = 0, peak = 0, ptr = 0, freeBlocks = []\<rparr>"

subsection \<open>The operations of \<open>std::map\<close> used by the allocator\<close>

text \<open>\<open>m[k] = v\<close>: overwrite the entry of key \<open>k\<close>, or insert it at its place.\<close>

fun map_assign :: "size_t \<Rightarrow> size_t \<Rightarrow> (size_t \<times> size_t) list \<Rightarrow> (size_t \<times> size_t) list" where
  "map_assign k v [] = [(k, v)]"
| "map_assign k v ((k', v') # m) =
     (if k < k' then (k, v) # (k', v') # m
      else if k = k' then (k, v) # m
      else (k', v') # map_assign k v m)"

text \<open>\<open>m.erase(k)\<close> (and \<open>m.erase(it)\<close> for the iterator of key \<open>k\<close>).\<close>

fun map_erase :: "size_t \<Rightarrow> (size_t \<times> size_t) list \<Rightarrow> (size_t \<times> size_t) list" where
  "map_erase k [] = []"
| "map_erase k ((k', v') # m) = (if k = k' then m else (k', v') # map_erase k m)"

text \<open>\<open>m.find(k)\<close>: the value of key \<open>k\<close>, \<open>None\<close> for \<open>m.end()\<close>.\<close>

fun map_find :: "size_t \<Rightarrow> (size_t \<times> size_t) list \<Rightarrow> size_t option" where
  "map_find k [] = None"
| "map_find k ((k', v') # m) = (if k = k' then Some v' else map_find k m)"

subsection \<open>\<open>getAlignedSize\<close>, \<open>alloc\<close>, \<open>free\<close>, \<open>getPtr\<close>\<close>

text \<open>\<open>((size - 1) / alignment + 1) * alignment\<close> in unsigned 64-bit arithmetic.\<close>

definition getAlignedSize :: "size_t \<Rightarrow> size_t" where
  "getAlignedSize sz = ((sz - 1) div alignment + 1) * alignment"

text \<open>
  The scan of \<open>alloc\<close>: the first entry, in ascending offset order, whose length is
  at least the requested size.
\<close>

fun first_fit :: "size_t \<Rightarrow> (size_t \<times> size_t) list \<Rightarrow> (size_t \<times> size_t) option" where
  "first_fit sz [] = None"
| "first_fit sz ((block_offset, block_size) # rest) =
     (if block_size \<ge> sz then Some (block_offset, block_size) else first_fit sz rest)"

definition alloc :: "size_t \<Rightarrow> Allocator \<Rightarrow> error + (size_t \<times> Allocator)" where
  "alloc size0 a =
     (if ptr a \<noteq> 0 then Inl AssertionFailed
      else
        let sz = getAlignedSize size0 in
        case first_fit sz (freeBlocks a) of
          Some (block_offset, block_size) \<Rightarrow>
            let used' = used a + sz;
                peak' = max (peak a) used';
                erased = map_erase block_offset (freeBlocks a);
                remaining_size = block_size - sz;
                blocks' = (if remaining_size > 0
                           then map_assign (block_offset + sz) remaining_size erased
                           else erased)
            in Inr (block_offset, a\<lparr>used := used', peak := peak', freeBlocks := blocks'\<rparr>)
        | None \<Rightarrow>
            let offset = used a;
                used' = used a + sz
            in Inr (offset, a\<lparr>used := used', peak := max (peak a) used'\<rparr>))"

text \<open>
  The backward scan of \<open>free\<close>: the first entry, in ascending offset order, that
  ends exactly at \<open>addr\<close>.
\<close>

fun find_prev :: "size_t \<Rightarrow> (size_t \<times> size_t) list \<Rightarrow> (size_t \<times> size_t) option" where
  "find_prev addr [] = None"
| "find_prev addr ((off, len) # rest) =
     (if off + len = addr then Some (off, len) else find_prev addr rest)"

definition free :: "size_t \<Rightarrow> size_t \<Rightarrow> Allocator \<Rightarrow> error + Allocator" where
  "free addr size0 a =
     (if ptr a \<noteq> 0 then Inl AssertionFailed
      else
        let sz = getAlignedSize size0;
            used' = used a - sz;
            inserted = map_assign addr sz (freeBlocks a);
            (sz', merged_next) =
               (case map_find (addr + sz) inserted of
                  Some next_size \<Rightarrow>
                    (sz + next_size,
                     map_assign addr (sz + next_size) (map_erase (addr + sz) inserted))
                | None \<Rightarrow> (sz, inserted));
            merged_prev =
               (case find_prev addr merged_next of
                  Some (merged_addr, prev_size) \<Rightarrow>
                    map_assign merged_addr (prev_size + sz')
                      (map_erase addr (map_erase merged_addr merged_next))
                | None \<Rightarrow> merged_next)
        in Inr (a\<lparr>used := used', freeBlocks := merged_prev\<rparr>))"

text \<open>
  \<open>getPtr\<close>: while \<open>ptr\<close> is null, a call asks the runtime for \<open>peak\<close> bytes and
  keeps the address. The runtime is a collaborator: \<open>rt_alloc\<close> is the address it
  returns for a request, and the list of the requests made so far is threaded through.
\<close>

definition getPtr :: "(size_t \<Rightarrow> size_t) \<Rightarrow> Allocator \<times> size_t list
    \<Rightarrow> size_t \<times> Allocator \<times> size_t list" where
  "getPtr rt_alloc s =
     (case s of (a, requests) \<Rightarrow>
        if ptr a = 0
        then (rt_alloc (peak a), a\<lparr>ptr := rt_alloc (peak a)\<rparr>, requests @ [peak a])
        else (ptr a, a, requests))"

text \<open>
  A sequence of planning calls, run from a given state. The result holds the offsets
  the \<open>alloc\<close> calls returned, in call order, and the final state; the run stops at
  the first fault.
\<close>

datatype call = Alloc size_t | Free size_t size_t

fun run :: "call list \<Rightarrow> Allocator \<Rightarrow> error + (size_t list \<times> Allocator)" where
  "run [] a = Inr ([], a)"
| "run (Alloc n # cs) a =
     (case alloc n a of
        Inl e \<Rightarrow> Inl e
      | Inr (off, a') \<Rightarrow>
          (case run cs a' of Inl e \<Rightarrow> Inl e | Inr (offs, a'') \<Rightarrow> Inr (off # offs, a'')))"
| "run (Free addr n # cs) a =
     (case free addr n a of Inl e \<Rightarrow> Inl e | Inr a' \<Rightarrow> run cs a')"

text \<open>
  The pairs of distinct entries of a table where the first ends exactly where the
  second begins. The table is coalesced when there is none.
\<close>

definition adjacent_pairs :: "(size_t \<times> size_t) list
    \<Rightarrow> ((size_t \<times> size_t) \<times> (size_t \<times> size_t)) list" where
  "adjacent_pairs blocks =
     concat (map (\<lambda>x. map (Pair x) (filter (\<lambda>y. x \<noteq> y \<and> fst x + snd x = fst y) blocks))
       blocks)"

definition coalesced :: "(size_t \<times> size_t) list \<Rightarrow> bool" where
  "coalesced blocks = (adjacent_pairs blocks = [])"

text \<open>
  The representation invariant of the ordered map: keys strictly ascending.
\<close>

definition map_ok :: "(size_t \<times> size_t) list \<Rightarrow> bool" where
  "map_ok m = sorted_wrt (<) (map fst m)"

text \<open>
  A table whose regions are laid out apart from each other: every region ends strictly
  before the next one begins, and the last one ends inside the address space.
\<close>

fun separated :: "(size_t \<times> size_t) list \<Rightarrow> bool" where
  "separated [] = True"
| "separated [(off, len)] = (unat off + unat len < 2 ^ 64)"
| "separated ((off, len) # (off', len') # rest) =
     (unat off + unat len < unat off' \<and> separated ((off', len') # rest))"

text \<open>The order behind \<open>separated\<close>: a region ends strictly before another begins.\<close>

definition ends_before :: "size_t \<times> size_t \<Rightarrow> size_t \<times> size_t \<Rightarrow> bool" where
  "ends_before x y = (unat (fst x) + unat (snd x) < unat (fst y))"

section \<open>Matrix-multiply shape inference (src/operators/matmul.cc)\<close>

text \<open>
  A \<open>Shape\<close> is a \<open>vector<int>\<close>; dimensions are only compared and copied here.
  \<open>std::swap(s[n - 2], s[n - 1])\<close> on a shape of at least two dimensions:
\<close>

type_synonym Shape = "int list"

definition swap_last_two :: "Shape \<Rightarrow> Shape" where
  "swap_last_two s =
     (let n = length s in s[n - 2 := s ! (n - 1), n - 1 := s ! (n - 2)])"

text \<open>
  \<open>MatmulObj::inferShape\<close> on the shapes of \<open>inputs[0]\<close> and \<open>inputs[1]\<close>. The result
  \<open>Inr None\<close> is \<open>std::nullopt\<close>. Reading \<open>back()\<close> of an empty vector, the index
  \<open>size() - 2\<close> of a vector shorter than two and the range \<open>[begin(), end() - 2)\<close> of
  such a vector are out of range in the source; the model returns \<open>Inl OutOfRange\<close>
  there.
\<close>

definition matmul_inferShape :: "bool \<Rightarrow> bool \<Rightarrow> Shape \<Rightarrow> Shape \<Rightarrow> error + Shape list option" where
  "matmul_inferShape transA transB shapeA0 shapeB0 =
     (if transA \<and> length shapeA0 < 2 then Inr None
      else
        let shapeA = (if transA then swap_last_two shapeA0 else shapeA0) in
        if transB \<and> length shapeB0 < 2 then Inr None
        else
          let shapeB = (if transB then swap_last_two shapeB0 else shapeB0) in
          if shapeA = [] \<or> length shapeB < 2 then Inl OutOfRange
          else if last shapeA \<noteq> shapeB ! (length shapeB - 2) then Inr None
          else if length shapeA < 2 then Inl OutOfRange
          else
            let prefixA = take (length shapeA - 2) shapeA;
                outputShape = prefixA @ [shapeA ! (length shapeA - 2)]
                                      @ [shapeB ! (length shapeB - 1)]
            in Inr (Some [outputShape]))"

section \<open>The graph (src/core/graph.cc)\<close>

text \<open>
  Operators and tensors are heap objects that refer to each other; the graph holds
  lists of references to them. A reference is the identity of the object (a
  number), and the two stores map a reference to the object's current fields.
  An operator has its kind, its ordered inputs and outputs, its predecessors and
  successors, and the attributes of its kind (the permutation of a transpose, the
  two transpose flags of a matmul). A tensor has its shape, its source operator
  (\<open>None\<close> when it has none), its target operators, its \<open>fuid\<close> and its data pointer.
  The kinds other than \<open>Transpose\<close> and \<open>MatMul\<close> are not told apart.
\<close>

type_synonym op_ref = nat
type_synonym tensor_ref = nat

datatype OpType = Transpose | MatMul | OtherOp

record OperatorObj =
  opType :: OpType
  inputs :: "tensor_ref list"
  outputs :: "tensor_ref list"
  predecessors :: "op_ref list"
  successors :: "op_ref list"
  permute :: "int list"
  transA :: bool
  transB :: bool

record TensorObj =
  dims :: Shape
  source :: "op_ref option"
  targets :: "op_ref list"
  fuid :: nat
  dataBlob :: "size_t option"

record GraphObj =
  ops :: "op_ref list"
  tensors :: "tensor_ref list"
  sorted_flag :: bool
  allocator :: Allocator
  rt_requests :: "size_t list"
  opStore :: "op_ref \<Rightarrow> OperatorObj"
  tensorStore :: "tensor_ref \<Rightarrow> TensorObj"

subsection \<open>\<open>topo_sort\<close>\<close>

text \<open>
  The test of the inner loop: the operator is not flagged, and every input has no
  source or a flagged source.
\<close>

definition placeable :: "GraphObj \<Rightarrow> op_ref set \<Rightarrow> op_ref \<Rightarrow> bool" where
  "placeable g flags op =
     (op \<notin> flags \<and>
      list_all (\<lambda>input. case source (tensorStore g input) of
                           None \<Rightarrow> True
                         | Some p \<Rightarrow> p \<in> flags)
        (inputs (opStore g op)))"

text \<open>
  One pass of the \<open>for\<close> loop over the operators still to scan. The state is
  \<open>modified\<close>, the vector \<open>sorted\<close> and the set \<open>flags\<close>.
\<close>

fun topo_pass :: "GraphObj \<Rightarrow> op_ref list \<Rightarrow> bool \<times> op_ref list \<times> op_ref set
    \<Rightarrow> bool \<times> op_ref list \<times> op_ref set" where
  "topo_pass g [] st = st"
| "topo_pass g (op # rest) (modified, srt, flags) =
     (if placeable g flags op
      then topo_pass g rest (True, srt @ [op], insert op flags)
      else topo_pass g rest (modified, srt, flags))"

lemma topo_pass_length:
  "topo_pass g os (m, srt, flags) = (m', srt', flags')
     \<Longrightarrow> length srt \<le> length srt' \<and> (m' \<and> \<not> m \<longrightarrow> length srt < length srt')"
proof (induction os arbitrary: m srt flags)
  case Nil
  then show ?case by simp
next
  case (Cons op os)
  show ?case
  proof (cases "placeable g flags op")
    case True
    with Cons.prems have "topo_pass g os (True, srt @ [op], insert op flags) = (m', srt', flags')"
      by simp
    from Cons.IH [OF this] show ?thesis by simp
  next
    case False
    with Cons.prems have "topo_pass g os (m, srt, flags) = (m', srt', flags')"
      by simp
    from Cons.IH [OF this] show ?thesis .
  qed
qed

lemma topo_pass_grows:
  "topo_pass g os (False, srt, flags) = (True, srt', flags') \<Longrightarrow> length srt < length srt'"
  using topo_pass_length by blast

text \<open>
  The \<open>while\<close> loop: passes are repeated until \<open>sorted\<close> holds as many operators as
  \<open>ops\<close>; a pass that places nothing ends the sort with \<open>false\<close> (\<open>None\<close>).
\<close>

function topo_loop :: "GraphObj \<Rightarrow> op_ref list \<Rightarrow> op_ref set \<Rightarrow> op_ref list option" where
  "topo_loop g srt flags =
     (if length srt < length (ops g)
      then (case topo_pass g (ops g) (False, srt, flags) of
              (modified, srt', flags') \<Rightarrow>
                if \<not> modified then None else topo_loop g srt' flags')
      else Some srt)"
  by pat_completeness auto
termination
  by (relation "measure (\<lambda>(g, srt, flags). length (ops g) - length srt)")
    (auto dest!: topo_pass_grows [OF sym])

declare topo_loop.simps [simp del]

text \<open>
  \<open>topo_sort\<close> returns its boolean and the graph after the call: a cached flag
  returns at once; a failed sort leaves the graph as it was; a successful one
  replaces \<open>ops\<close> and sets the flag.
\<close>

definition topo_sort :: "GraphObj \<Rightarrow> bool \<times> GraphObj" where
  "topo_sort g =
     (if sorted_flag g then (True, g)
      else (case topo_loop g [] {} of
              None \<Rightarrow> (False, g)
            | Some srt \<Rightarrow> (True, g\<lparr>ops := srt, sorted_flag := True\<rparr>)))"

text \<open>
  The passes of a sort, one list of newly placed operators per pass; it follows the
  loop above and records what each pass appended.
\<close>

function topo_layers :: "GraphObj \<Rightarrow> op_ref list \<Rightarrow> op_ref set \<Rightarrow> op_ref list list" where
  "topo_layers g srt flags =
     (if length srt < length (ops g)
      then (case topo_pass g (ops g) (False, srt, flags) of
              (modified, srt', flags') \<Rightarrow>
                if \<not> modified then []
                else drop (length srt) srt' # topo_layers g srt' flags')
      else [])"
  by pat_completeness auto
termination
  by (relation "measure (\<lambda>(g, srt, flags). length (ops g) - length srt)")
    (auto dest!: topo_pass_grows [OF sym])

declare topo_layers.simps [simp del]

text \<open>
  The producer-to-consumer edges of a graph: \<open>(p, c)\<close> when the operator \<open>c\<close> of the
  graph reads a tensor whose source is \<open>p\<close>. An operator list is in dependency order
  when every producer of an input of an operator stands at an earlier position.
\<close>

definition edges :: "GraphObj \<Rightarrow> (op_ref \<times> op_ref) set" where
  "edges g = {(p, c). c \<in> set (ops g) \<and>
                      (\<exists>t \<in> set (inputs (opStore g c)). source (tensorStore g t) = Some p)}"

definition producers :: "GraphObj \<Rightarrow> op_ref \<Rightarrow> op_ref list" where
  "producers g c =
     concat (map (\<lambda>t. case source (tensorStore g t) of None \<Rightarrow> [] | Some p \<Rightarrow> [p])
       (inputs (opStore g c)))"

definition dependency_order :: "GraphObj \<Rightarrow> op_ref list \<Rightarrow> bool" where
  "dependency_order g os =
     (\<forall>i < length os. \<forall>p \<in> set (producers g (os ! i)). p \<in> set (take i os))"

subsection \<open>\<open>getTensor\<close> and \<open>shape_infer\<close>\<close>

text \<open>\<open>getTensor\<close>: the first tensor of the graph with the given \<open>fuid\<close>, if any.\<close>

definition getTensor :: "GraphObj \<Rightarrow> nat \<Rightarrow> tensor_ref option" where
  "getTensor g f = find (\<lambda>t. fuid (tensorStore g t) = f) (tensors g)"

definition setShape :: "tensor_ref \<Rightarrow> Shape \<Rightarrow> GraphObj \<Rightarrow> GraphObj" where
  "setShape t shape g =
     g\<lparr>tensorStore := (tensorStore g)(t := (tensorStore g t)\<lparr>dims := shape\<rparr>)\<rparr>"

text \<open>
  A failed \<open>IT_ASSERT\<close> ends the call; the result \<open>Inl (e, g)\<close> holds the fault and the
  graph as the call left it. The inner loop of \<open>shape_infer\<close> compares each inferred
  shape with the current one of the output and, when they differ, overwrites the
  shape of the tensor that \<open>getTensor\<close> finds for the output's \<open>fuid\<close> (calling
  \<open>setShape\<close> through a null result is the fault \<open>NullPointer\<close>).
\<close>

fun update_outputs :: "Shape list \<Rightarrow> tensor_ref list \<Rightarrow> GraphObj
    \<Rightarrow> (error \<times> GraphObj) + GraphObj" where
  "update_outputs (newShape # ans) (out # oldOutputs) g =
     (let oldShape = dims (tensorStore g out);
          f = fuid (tensorStore g out)
      in if newShape \<noteq> oldShape
         then (case getTensor g f of
                 None \<Rightarrow> Inl (NullPointer, g)
               | Some tensor \<Rightarrow> update_outputs ans oldOutputs (setShape tensor newShape g))
         else update_outputs ans oldOutputs g)"
| "update_outputs ans oldOutputs g = Inr g"

text \<open>
  The walk over the operators. \<open>infer g op\<close> is the operator's own \<open>inferShape()\<close> on
  the current shapes of its inputs, a contract of the operator catalogue; \<open>None\<close> is
  \<open>std::nullopt\<close>.
\<close>

fun shape_walk :: "(GraphObj \<Rightarrow> op_ref \<Rightarrow> Shape list option) \<Rightarrow> op_ref list \<Rightarrow> GraphObj
    \<Rightarrow> (error \<times> GraphObj) + GraphObj" where
  "shape_walk infer [] g = Inr g"
| "shape_walk infer (op # rest) g =
     (case infer g op of
        None \<Rightarrow> Inl (AssertionFailed, g)
      | Some ans \<Rightarrow>
          let oldOutputs = outputs (opStore g op) in
          if length ans \<noteq> length oldOutputs then Inl (AssertionFailed, g)
          else (case update_outputs ans oldOutputs g of
                  Inl e \<Rightarrow> Inl e
                | Inr g' \<Rightarrow> shape_walk infer rest g'))"

definition shape_infer :: "(GraphObj \<Rightarrow> op_ref \<Rightarrow> Shape list option) \<Rightarrow> GraphObj
    \<Rightarrow> (error \<times> GraphObj) + GraphObj" where
  "shape_infer infer g = shape_walk infer (ops g) g"

subsection \<open>\<open>dataMalloc\<close>\<close>

text \<open>
  Phase 1 asks the allocator for an offset per tensor, in the order of the tensor
  list. \<open>getBytes\<close> is the byte size a tensor reports, a contract of the tensor.
\<close>

fun plan_offsets :: "(TensorObj \<Rightarrow> size_t) \<Rightarrow> (tensor_ref \<Rightarrow> TensorObj) \<Rightarrow> tensor_ref list
    \<Rightarrow> Allocator \<Rightarrow> error + (size_t list \<times> Allocator)" where
  "plan_offsets getBytes store [] a = Inr ([], a)"
| "plan_offsets getBytes store (tensor # rest) a =
     (case alloc (getBytes (store tensor)) a of
        Inl e \<Rightarrow> Inl e
      | Inr (offset, a') \<Rightarrow>
          (case plan_offsets getBytes store rest a' of
             Inl e \<Rightarrow> Inl e
           | Inr (offsets, a'') \<Rightarrow> Inr (offset # offsets, a'')))"

text \<open>Phase 3 binds \<open>tensors[i]\<close> to the address \<open>basePtr + offsets[i]\<close>.\<close>

fun bind_blobs :: "size_t \<Rightarrow> (tensor_ref \<times> size_t) list \<Rightarrow> (tensor_ref \<Rightarrow> TensorObj)
    \<Rightarrow> (tensor_ref \<Rightarrow> TensorObj)" where
  "bind_blobs basePtr [] store = store"
| "bind_blobs basePtr ((tensor, offset) # rest) store =
     bind_blobs basePtr rest
       (store(tensor := (store tensor)\<lparr>dataBlob := Some (basePtr + offset)\<rparr>))"

definition dataMalloc :: "(TensorObj \<Rightarrow> size_t) \<Rightarrow> (size_t \<Rightarrow> size_t) \<Rightarrow> GraphObj
    \<Rightarrow> error + GraphObj" where
  "dataMalloc getBytes rt_alloc g0 =
     (case topo_sort g0 of (ok, g) \<Rightarrow>
        if \<not> ok then Inl AssertionFailed
        else if tensors g = [] then Inr g
        else
          (case plan_offsets getBytes (tensorStore g) (tensors g) (allocator g) of
             Inl e \<Rightarrow> Inl e
           | Inr (offsets, a) \<Rightarrow>
               (case getPtr rt_alloc (a, rt_requests g) of (basePtr, a', requests) \<Rightarrow>
                  Inr (g\<lparr>allocator := a', rt_requests := requests,
                         tensorStore := bind_blobs basePtr (zip (tensors g) offsets)
                                          (tensorStore g)\<rparr>))))"

subsection \<open>Object methods used by \<open>optimize\<close>\<close>

text \<open>
  Modelled from the spec: the methods of \<open>OperatorObj\<close>, \<open>TensorObj\<close> and \<open>GraphObj\<close> that
  \<open>optimize\<close> calls are declared in headers that are not among the sources. The spec
  describes the targets of a tensor and the predecessors and successors of an
  operator as sets (an edge is never duplicated), the inputs and outputs as ordered
  lists, a transpose as an operator with a sole output, and the removal of an
  operator or a tensor as a structural mutation that resets the sort cache. So
  adding a reference appends it unless it is present, removing a reference removes
  it wherever it stands, \<open>replaceInput\<close> replaces a tensor wherever it stands among the
  inputs, \<open>getOutput\<close> is the sole output (a fault when there is not exactly one),
  \<open>getInputs(i)\<close> is a checked read, and \<open>removeOperator\<close> and \<open>removeTensor\<close> erase the
  entry of the list.
\<close>

definition add_ref :: "nat \<Rightarrow> nat list \<Rightarrow> nat list" where
  "add_ref r rs = (if r \<in> set rs then rs else rs @ [r])"

definition remove_ref :: "nat \<Rightarrow> nat list \<Rightarrow> nat list" where
  "remove_ref r rs = filter (\<lambda>x. x \<noteq> r) rs"

definition upd_op :: "op_ref \<Rightarrow> (OperatorObj \<Rightarrow> OperatorObj) \<Rightarrow> GraphObj \<Rightarrow> GraphObj" where
  "upd_op r f g = g\<lparr>opStore := (opStore g)(r := f (opStore g r))\<rparr>"

definition upd_tensor :: "tensor_ref \<Rightarrow> (TensorObj \<Rightarrow> TensorObj) \<Rightarrow> GraphObj \<Rightarrow> GraphObj" where
  "upd_tensor t f g = g\<lparr>tensorStore := (tensorStore g)(t := f (tensorStore g t))\<rparr>"

definition replaceInput :: "op_ref \<Rightarrow> tensor_ref \<Rightarrow> tensor_ref \<Rightarrow> GraphObj \<Rightarrow> GraphObj" where
  "replaceInput op t1 t2 =
     upd_op op (\<lambda>obj. obj\<lparr>inputs := map (\<lambda>t. if t = t1 then t2 else t) (inputs obj)\<rparr>)"

definition addPredecessors :: "op_ref \<Rightarrow> op_ref \<Rightarrow> GraphObj \<Rightarrow> GraphObj" where
  "addPredecessors op p = upd_op op (\<lambda>obj. obj\<lparr>predecessors := add_ref p (predecessors obj)\<rparr>)"

definition removePredecessors :: "op_ref \<Rightarrow> op_ref \<Rightarrow> GraphObj \<Rightarrow> GraphObj" where
  "removePredecessors op p =
     upd_op op (\<lambda>obj. obj\<lparr>predecessors := remove_ref p (predecessors obj)\<rparr>)"

definition addSuccessors :: "op_ref \<Rightarrow> op_ref \<Rightarrow> GraphObj \<Rightarrow> GraphObj" where
  "addSuccessors op s = upd_op op (\<lambda>obj. obj\<lparr>successors := add_ref s (successors obj)\<rparr>)"

definition removeSuccessors :: "op_ref \<Rightarrow> op_ref \<Rightarrow> GraphObj \<Rightarrow> GraphObj" where
  "removeSuccessors op s =
     upd_op op (\<lambda>obj. obj\<lparr>successors := remove_ref s (successors obj)\<rparr>)"

definition setTransA :: "op_ref \<Rightarrow> bool \<Rightarrow> GraphObj \<Rightarrow> GraphObj" where
  "setTransA op b = upd_op op (\<lambda>obj. obj\<lparr>transA := b\<rparr>)"

definition setTransB :: "op_ref \<Rightarrow> bool \<Rightarrow> GraphObj \<Rightarrow> GraphObj" where
  "setTransB op b = upd_op op (\<lambda>obj. obj\<lparr>transB := b\<rparr>)"

definition addTarget :: "tensor_ref \<Rightarrow> op_ref \<Rightarrow> GraphObj \<Rightarrow> GraphObj" where
  "addTarget t op = upd_tensor t (\<lambda>obj. obj\<lparr>targets := add_ref op (targets obj)\<rparr>)"

definition removeTarget :: "tensor_ref \<Rightarrow> op_ref \<Rightarrow> GraphObj \<Rightarrow> GraphObj" where
  "removeTarget t op = upd_tensor t (\<lambda>obj. obj\<lparr>targets := remove_ref op (targets obj)\<rparr>)"

definition removeOperator :: "op_ref \<Rightarrow> GraphObj \<Rightarrow> GraphObj" where
  "removeOperator op g = g\<lparr>ops := remove1 op (ops g), sorted_flag := False\<rparr>"

definition removeTensor :: "tensor_ref \<Rightarrow> GraphObj \<Rightarrow> GraphObj" where
  "removeTensor t g = g\<lparr>tensors := remove1 t (tensors g), sorted_flag := False\<rparr>"

definition getOutput :: "GraphObj \<Rightarrow> op_ref \<Rightarrow> error + tensor_ref" where
  "getOutput g op = (case outputs (opStore g op) of [t] \<Rightarrow> Inr t | _ \<Rightarrow> Inl AssertionFailed)"

definition getInput :: "GraphObj \<Rightarrow> op_ref \<Rightarrow> nat \<Rightarrow> error + tensor_ref" where
  "getInput g op i =
     (if i < length (inputs (opStore g op)) then Inr (inputs (opStore g op) ! i)
      else Inl OutOfRange)"

subsection \<open>\<open>optimize\<close>: the two tests on permutations\<close>

text \<open>\<open>v[i]\<close> for a \<open>vector<int>\<close> and an \<open>int\<close> index; outside the vector it is a fault.\<close>

definition at :: "int list \<Rightarrow> int \<Rightarrow> error + int" where
  "at v i = (if 0 \<le> i \<and> i < int (length v) then Inr (v ! nat i) else Inl OutOfRange)"

text \<open>
  \<open>isInversePermutation\<close>: the sizes agree and \<open>p2[p1[i]] == i\<close> for every \<open>i\<close>; the loop
  returns at the first \<open>i\<close> that fails.
\<close>

fun inverse_from :: "nat \<Rightarrow> int list \<Rightarrow> int list \<Rightarrow> error + bool" where
  "inverse_from i [] p2 = Inr True"
| "inverse_from i (x # rest) p2 =
     (case at p2 x of
        Inl e \<Rightarrow> Inl e
      | Inr y \<Rightarrow> if y \<noteq> int i then Inr False else inverse_from (Suc i) rest p2)"

definition isInversePermutation :: "int list \<Rightarrow> int list \<Rightarrow> error + bool" where
  "isInversePermutation p1 p2 =
     (if length p1 \<noteq> length p2 then Inr False else inverse_from 0 p1 p2)"

text \<open>
  \<open>isLastTwoDimsSwap\<close>: the size is the rank, the leading axes are kept, the last two
  are exchanged. For a rank below two the final reads are outside the vector.
\<close>

definition isLastTwoDimsSwap :: "int list \<Rightarrow> nat \<Rightarrow> error + bool" where
  "isLastTwoDimsSwap perm rank =
     (if length perm \<noteq> rank then Inr False
      else if take (rank - 2) perm \<noteq> map int [0 ..< rank - 2] then Inr False
      else if rank < 2 then Inl OutOfRange
      else Inr (perm ! (rank - 2) = int rank - 1 \<and> perm ! (rank - 1) = int rank - 2))"

subsection \<open>\<open>optimize\<close>: removing redundant transpose pairs\<close>

text \<open>
  The tests at the head of the loop body for the operator \<open>op1\<close>: it is a transpose,
  its output has exactly one target \<open>op2\<close>, which is a transpose with the inverse
  permutation. \<open>Inr None\<close> is \<open>continue\<close>; a match returns \<open>op2\<close> and the middle tensor.
\<close>

definition pair_match :: "GraphObj \<Rightarrow> op_ref \<Rightarrow> error + (op_ref \<times> tensor_ref) option" where
  "pair_match g op1 =
     (if opType (opStore g op1) \<noteq> Transpose then Inr None
      else
        case getOutput g op1 of
          Inl e \<Rightarrow> Inl e
        | Inr middleTensor \<Rightarrow>
            (case targets (tensorStore g middleTensor) of
               [op2] \<Rightarrow>
                 if opType (opStore g op2) \<noteq> Transpose then Inr None
                 else (case isInversePermutation (permute (opStore g op1))
                              (permute (opStore g op2)) of
                         Inl e \<Rightarrow> Inl e
                       | Inr inv_ok \<Rightarrow>
                           if inv_ok then Inr (Some (op2, middleTensor)) else Inr None)
             | _ \<Rightarrow> Inr None))"

text \<open>The loop over the successors of the output tensor (a copy of its targets).\<close>

fun relink :: "tensor_ref \<Rightarrow> tensor_ref \<Rightarrow> op_ref \<Rightarrow> op_ref option \<Rightarrow> op_ref list
    \<Rightarrow> GraphObj \<Rightarrow> GraphObj" where
  "relink outputTensor inputTensor op2 inputSource [] g = g"
| "relink outputTensor inputTensor op2 inputSource (succ # rest) g =
     relink outputTensor inputTensor op2 inputSource rest
       (let g1 = replaceInput succ outputTensor inputTensor g;
            g2 = addTarget inputTensor succ g1;
            g3 = removePredecessors succ op2 g2
        in case inputSource of
             None \<Rightarrow> g3
           | Some src \<Rightarrow> addPredecessors succ src (addSuccessors src succ g3))"

text \<open>The rewrite of a matched pair.\<close>

definition rewrite_pair :: "GraphObj \<Rightarrow> op_ref \<Rightarrow> op_ref \<Rightarrow> tensor_ref \<Rightarrow> error + GraphObj" where
  "rewrite_pair g op1 op2 middleTensor =
     (case getInput g op1 0 of
        Inl e \<Rightarrow> Inl e
      | Inr inputTensor \<Rightarrow>
          (case getOutput g op2 of
             Inl e \<Rightarrow> Inl e
           | Inr outputTensor \<Rightarrow>
               let inputSource = source (tensorStore g inputTensor);
                   successors = targets (tensorStore g outputTensor);
                   g1 = relink outputTensor inputTensor op2 inputSource successors g;
                   g2 = (case inputSource of
                           None \<Rightarrow> g1
                         | Some src \<Rightarrow> removeSuccessors src op1 g1);
                   g3 = removeSuccessors op1 op2 g2;
                   g4 = removePredecessors op2 op1 g3;
                   g5 = removeTarget inputTensor op1 g4;
                   g6 = removeOperator op1 g5;
                   g7 = removeOperator op2 g6;
                   g8 = removeTensor middleTensor g7
               in Inr (removeTensor outputTensor g8)))"

text \<open>The methods on objects leave the two lists of the graph as they are.\<close>

lemma ops_methods:
  "ops (upd_op r f g) = ops g"
  "ops (upd_tensor t h g) = ops g"
  "ops (replaceInput op t1 t2 g) = ops g"
  "ops (addPredecessors op p g) = ops g"
  "ops (removePredecessors op p g) = ops g"
  "ops (addSuccessors op p g) = ops g"
  "ops (removeSuccessors op p g) = ops g"
  "ops (setTransA op b g) = ops g"
  "ops (setTransB op b g) = ops g"
  "ops (addTarget t op g) = ops g"
  "ops (removeTarget t op g) = ops g"
  "ops (removeTensor t g) = ops g"
  "ops (removeOperator op g) = remove1 op (ops g)"
  by (simp_all add: upd_op_def upd_tensor_def replaceInput_def addPredecessors_def
      removePredecessors_def addSuccessors_def removeSuccessors_def setTransA_def setTransB_def
      addTarget_def removeTarget_def removeTensor_def removeOperator_def)


lemma ops_relink: "ops (relink outT inT op2 src succs g) = ops g"
  by (induction succs arbitrary: g) (auto simp: ops_methods Let_def split: option.splits)


lemma ops_rewrite_pair:
  "rewrite_pair g op1 op2 middleTensor = Inr g' \<Longrightarrow> ops g' = remove1 op2 (remove1 op1 (ops g))"
  by (auto simp: rewrite_pair_def Let_def ops_methods ops_relink split: sum.splits option.splits)

lemma length_remove1_less: "x \<in> set xs \<Longrightarrow> length (remove1 y (remove1 x xs)) < length xs"
proof -
  assume "x \<in> set xs"
  then have "length (remove1 x xs) < length xs"
    by (simp add: length_remove1) (cases xs, auto)
  moreover have "length (remove1 y (remove1 x xs)) \<le> length (remove1 x xs)"
    by (cases "y \<in> set (remove1 x xs)") (simp_all add: length_remove1 remove1_idem)
  ultimately show ?thesis by simp
qed

text \<open>
  The scan of \<open>removeRedundantTransposePairs\<close> from position \<open>i\<close>: a position that does
  not match is passed; after a rewrite the scan goes on at the same position.
\<close>

function removeRedundantTransposePairs_from :: "nat \<Rightarrow> bool \<Rightarrow> GraphObj
    \<Rightarrow> error + (GraphObj \<times> bool)" where
  "removeRedundantTransposePairs_from i changed g =
     (if i < length (ops g)
      then (case pair_match g (ops g ! i) of
              Inl e \<Rightarrow> Inl e
            | Inr None \<Rightarrow> removeRedundantTransposePairs_from (i + 1) changed g
            | Inr (Some (op2, middleTensor)) \<Rightarrow>
                (case rewrite_pair g (ops g ! i) op2 middleTensor of
                   Inl e \<Rightarrow> Inl e
                 | Inr g' \<Rightarrow> removeRedundantTransposePairs_from i True g'))
      else Inr (g, changed))"
  by pat_completeness auto
termination
proof (relation "measure (\<lambda>(i, changed, g). length (ops g) - i)", goal_cases)
  case 1
  show ?case by simp
next
  case (2 i changed g)
  then show ?case by simp
next
  case (3 i changed g x2 x2a x y x2b)
  from 3 have "ops x2b = remove1 x (remove1 (ops g ! i) (ops g))"
    by (auto dest: ops_rewrite_pair)
  with 3(1) have "length (ops x2b) < length (ops g)"
    by (simp add: length_remove1_less)
  with 3(1) show ?case by simp
qed

declare removeRedundantTransposePairs_from.simps [simp del]

definition removeRedundantTransposePairs :: "GraphObj \<Rightarrow> error + (GraphObj \<times> bool)" where
  "removeRedundantTransposePairs g = removeRedundantTransposePairs_from 0 False g"

subsection \<open>\<open>optimize\<close>: fusing a transpose into a matmul\<close>

text \<open>
  The source writes the same block twice, for input A (index 0, flag \<open>transA\<close>) and
  for input B (index 1, flag \<open>transB\<close>); the model writes it once, for the index
  \<open>k\<close>. First the tests: the \<open>k\<close>-th input has a source, which is a transpose, the input
  has exactly one target, and the permutation exchanges the last two axes of the
  input's rank. A match returns the transpose.
\<close>

definition fuse_match :: "GraphObj \<Rightarrow> op_ref \<Rightarrow> nat \<Rightarrow> error + op_ref option" where
  "fuse_match g matmul k =
     (case getInput g matmul k of
        Inl e \<Rightarrow> Inl e
      | Inr inputA \<Rightarrow>
          (case source (tensorStore g inputA) of
             None \<Rightarrow> Inr None
           | Some src \<Rightarrow>
               if opType (opStore g src) = Transpose
                  \<and> length (targets (tensorStore g inputA)) = 1
               then (case isLastTwoDimsSwap (permute (opStore g src))
                            (length (dims (tensorStore g inputA))) of
                       Inl e \<Rightarrow> Inl e
                     | Inr swap \<Rightarrow> if swap then Inr (Some src) else Inr None)
               else Inr None))"

text \<open>The rewrite of a matched input.\<close>

definition fuse_rewrite :: "GraphObj \<Rightarrow> op_ref \<Rightarrow> nat \<Rightarrow> op_ref \<Rightarrow> error + GraphObj" where
  "fuse_rewrite g matmul k transposeOp =
     (case getInput g matmul k of
        Inl e \<Rightarrow> Inl e
      | Inr inputA \<Rightarrow>
          (case getInput g transposeOp 0 of
             Inl e \<Rightarrow> Inl e
           | Inr originalA \<Rightarrow>
               let originalSource = source (tensorStore g originalA);
                   g1 = (if k = 0 then setTransA matmul (\<not> transA (opStore g matmul)) g
                         else setTransB matmul (\<not> transB (opStore g matmul)) g);
                   g2 = replaceInput matmul inputA originalA g1;
                   g3 = removeTarget originalA transposeOp g2;
                   g4 = addTarget originalA matmul g3;
                   g5 = removePredecessors matmul transposeOp g4;
                   g6 = (case originalSource of
                           None \<Rightarrow> g5
                         | Some src \<Rightarrow>
                             addPredecessors matmul src
                               (addSuccessors src matmul (removeSuccessors src transposeOp g5)));
                   g7 = removeOperator transposeOp g6
               in Inr (removeTensor inputA g7)))"

definition fuse_input :: "GraphObj \<Rightarrow> op_ref \<Rightarrow> nat \<Rightarrow> error + (GraphObj \<times> bool)" where
  "fuse_input g matmul k =
     (case fuse_match g matmul k of
        Inl e \<Rightarrow> Inl e
      | Inr None \<Rightarrow> Inr (g, False)
      | Inr (Some transposeOp) \<Rightarrow>
          (case fuse_rewrite g matmul k transposeOp of
             Inl e \<Rightarrow> Inl e
           | Inr g' \<Rightarrow> Inr (g', True)))"

text \<open>The body of the loop at position \<open>i\<close>: input A, then input B of a matmul.\<close>

definition fuse_step :: "GraphObj \<Rightarrow> nat \<Rightarrow> bool \<Rightarrow> error + (GraphObj \<times> bool)" where
  "fuse_step g i changed =
     (let op = ops g ! i in
      if opType (opStore g op) \<noteq> MatMul then Inr (g, changed)
      else (case fuse_input g op 0 of
              Inl e \<Rightarrow> Inl e
            | Inr (g1, c1) \<Rightarrow>
                (case fuse_input g1 op 1 of
                   Inl e \<Rightarrow> Inl e
                 | Inr (g2, c2) \<Rightarrow> Inr (g2, changed \<or> c1 \<or> c2))))"

lemma ops_fuse_rewrite:
  "fuse_rewrite g matmul k t = Inr g' \<Longrightarrow> ops g' = remove1 t (ops g)"
  by (auto simp: fuse_rewrite_def Let_def ops_methods split: sum.splits option.splits if_splits)

lemma length_fuse_input:
  "fuse_input g matmul k = Inr (g', c) \<Longrightarrow> length (ops g') \<le> length (ops g)"
  by (auto simp: fuse_input_def length_remove1 dest!: ops_fuse_rewrite
      split: sum.splits option.splits)

lemma length_fuse_step:
  "fuse_step g i changed = Inr (g', c) \<Longrightarrow> length (ops g') \<le> length (ops g)"
  by (fastforce simp: fuse_step_def Let_def dest: length_fuse_input
      split: sum.splits if_splits prod.splits)

text \<open>The \<open>for\<close> loop of \<open>fuseTransposeIntoMatmul\<close> from position \<open>i\<close>.\<close>

function fuseTransposeIntoMatmul_from :: "nat \<Rightarrow> bool \<Rightarrow> GraphObj
    \<Rightarrow> error + (GraphObj \<times> bool)" where
  "fuseTransposeIntoMatmul_from i changed g =
     (if i < length (ops g)
      then (case fuse_step g i changed of
              Inl e \<Rightarrow> Inl e
            | Inr (g', changed') \<Rightarrow> fuseTransposeIntoMatmul_from (i + 1) changed' g')
      else Inr (g, changed))"
  by pat_completeness auto
termination
proof (relation "measure (\<lambda>(i, changed, g). length (ops g) - i)", goal_cases)
  case 1
  show ?case by simp
next
  case (2 i changed g x2 g' changed')
  then have "length (ops g') \<le> length (ops g)"
    by (auto dest: length_fuse_step)
  with 2(1) show ?case by simp
qed

declare fuseTransposeIntoMatmul_from.simps [simp del]

definition fuseTransposeIntoMatmul :: "GraphObj \<Rightarrow> error + (GraphObj \<times> bool)" where
  "fuseTransposeIntoMatmul g = fuseTransposeIntoMatmul_from 0 False g"

subsection \<open>\<open>optimize\<close>: the outer loop\<close>

text \<open>
  \<open>optimize_loop n g\<close> is the \<open>while\<close> loop entered with \<open>changed\<close> set after \<open>n\<close>
  iterations: it stops at \<open>MAX_ITERATIONS = 10\<close> or when an iteration changes
  nothing.
\<close>

function optimize_loop :: "nat \<Rightarrow> GraphObj \<Rightarrow> error + GraphObj" where
  "optimize_loop iteration g =
     (if iteration < 10
      then (case removeRedundantTransposePairs g of
              Inl e \<Rightarrow> Inl e
            | Inr (g1, c1) \<Rightarrow>
                (case fuseTransposeIntoMatmul g1 of
                   Inl e \<Rightarrow> Inl e
                 | Inr (g2, c2) \<Rightarrow>
                     if c1 \<or> c2 then optimize_loop (iteration + 1) g2 else Inr g2))
      else Inr g)"
  by pat_completeness auto
termination
  by (relation "measure (\<lambda>(iteration, g). 10 - iteration)") auto

declare optimize_loop.simps [simp del]

definition optimize :: "GraphObj \<Rightarrow> error + GraphObj" where
  "optimize g = optimize_loop 0 g"

subsection \<open>What the rewrites keep, and graphs without a rewrite\<close>

text \<open>
  The fields that no rewrite of \<open>optimize\<close> touches: the kind, the permutation and the
  outputs of every operator, and the source and the shape of every tensor.
\<close>

definition same_static :: "GraphObj \<Rightarrow> GraphObj \<Rightarrow> bool" where
  "same_static g g' =
     ((\<forall>r. opType (opStore g' r) = opType (opStore g r)
          \<and> permute (opStore g' r) = permute (opStore g r)
          \<and> outputs (opStore g' r) = outputs (opStore g r))
      \<and> (\<forall>t. source (tensorStore g' t) = source (tensorStore g t)
             \<and> dims (tensorStore g' t) = dims (tensorStore g t)))"

text \<open>
  A graph is quiet when no operator of it matches the pattern of a transpose pair
  and no input of a matmul of it matches the pattern of the fusion.
\<close>

definition quiet :: "GraphObj \<Rightarrow> bool" where
  "quiet g =
     ((\<forall>p \<in> set (ops g). pair_match g p = Inr None)
      \<and> (\<forall>m \<in> set (ops g). opType (opStore g m) = MatMul
             \<longrightarrow> fuse_match g m 0 = Inr None \<and> fuse_match g m 1 = Inr None))"

subsection \<open>The links of a graph, and the place of a rewrite\<close>













subsection \<open>Well-formedness of a graph, and the invariant of the sort\<close>

text \<open>
  Every producer of an input of an operator of the graph is an operator of the graph
  (\<open>checkValid\<close> asserts it of every tensor of the graph).
\<close>

definition producers_closed :: "GraphObj \<Rightarrow> bool" where
  "producers_closed g = (\<forall>c \<in> set (ops g). set (producers g c) \<subseteq> set (ops g))"

text \<open>
  What holds of \<open>sorted\<close> and \<open>flags\<close> between two steps of the sort: the set holds the
  operators of the vector, which are distinct operators of the graph in dependency
  order.
\<close>

definition sort_inv :: "GraphObj \<Rightarrow> op_ref list \<Rightarrow> op_ref set \<Rightarrow> bool" where
  "sort_inv g srt flags =
     (flags = set srt \<and> distinct srt \<and> set srt \<subseteq> set (ops g) \<and> dependency_order g srt)"

subsection \<open>Example graphs\<close>

text \<open>
  An operator and a tensor with the given links and default attributes, and two small
  graphs: a chain in which operator 1 produces tensor 11 for operator 2, listed
  consumer first, and a cycle in which operators 1 and 2 read each other's output.
\<close>

definition mk_op :: "OpType \<Rightarrow> tensor_ref list \<Rightarrow> tensor_ref list \<Rightarrow> OperatorObj" where
  "mk_op kind ins outs =
     \<lparr>opType = kind, inputs = ins, outputs = outs, predecessors = [], successors = [],
      permute = [], transA = False, transB = False\<rparr>"

definition mk_tensor :: "nat \<Rightarrow> op_ref option \<Rightarrow> op_ref list \<Rightarrow> TensorObj" where
  "mk_tensor f src tgts = \<lparr>dims = [], source = src, targets = tgts, fuid = f, dataBlob = None\<rparr>"

definition chain_graph :: GraphObj where
  "chain_graph =
     \<lparr>ops = [2, 1], tensors = [10, 11, 12], sorted_flag = False,
      allocator = Allocator_init, rt_requests = [],
      opStore = (\<lambda>r. if r = 1 then mk_op OtherOp [10] [11] else mk_op OtherOp [11] [12]),
      tensorStore = (\<lambda>t. if t = 10 then mk_tensor 10 None [1]
                          else if t = 11 then mk_tensor 11 (Some 1) [2]
                          else mk_tensor 12 (Some 2) [])\<rparr>"

definition cycle_graph :: GraphObj where
  "cycle_graph =
     \<lparr>ops = [1, 2], tensors = [11, 12], sorted_flag = False,
      allocator = Allocator_init, rt_requests = [],
      opStore = (\<lambda>r. if r = 1 then mk_op OtherOp [12] [11] else mk_op OtherOp [11] [12]),
      tensorStore = (\<lambda>t. if t = 11 then mk_tensor 11 (Some 1) [2]
                          else mk_tensor 12 (Some 2) [1])\<rparr>"

text \<open>
  Graphs with transposes. In \<open>triple_graph\<close> three transposes that exchange two axes form
  a chain from tensor 20 to tensor 23. In \<open>pair_graph\<close> two transposes with inverse
  permutations feed an operator of another kind. In \<open>swap_pair_matmul_graph\<close> two
  transposes that exchange two axes feed the first input of a matmul, and in
  \<open>swap_matmul_graph\<close> one such transpose does.
\<close>

definition mk_transpose :: "int list \<Rightarrow> tensor_ref \<Rightarrow> tensor_ref \<Rightarrow> OperatorObj" where
  "mk_transpose p t_in t_out = (mk_op Transpose [t_in] [t_out])\<lparr>permute := p\<rparr>"

definition triple_graph :: GraphObj where
  "triple_graph =
     \<lparr>ops = [1, 2, 3], tensors = [20, 21, 22, 23], sorted_flag = False,
      allocator = Allocator_init, rt_requests = [],
      opStore = (\<lambda>r. if r = 1 then (mk_transpose [1, 0] 20 21)\<lparr>successors := [2]\<rparr>
                     else if r = 2
                     then (mk_transpose [1, 0] 21 22)\<lparr>predecessors := [1], successors := [3]\<rparr>
                     else (mk_transpose [1, 0] 22 23)\<lparr>predecessors := [2]\<rparr>),
      tensorStore = (\<lambda>t. if t = 20 then (mk_tensor 20 None [1])\<lparr>dims := [2, 3]\<rparr>
                          else if t = 21 then (mk_tensor 21 (Some 1) [2])\<lparr>dims := [3, 2]\<rparr>
                          else if t = 22 then (mk_tensor 22 (Some 2) [3])\<lparr>dims := [2, 3]\<rparr>
                          else (mk_tensor 23 (Some 3) [])\<lparr>dims := [3, 2]\<rparr>)\<rparr>"

definition pair_graph :: GraphObj where
  "pair_graph =
     \<lparr>ops = [1, 2, 3], tensors = [20, 21, 22, 23], sorted_flag = False,
      allocator = Allocator_init, rt_requests = [],
      opStore = (\<lambda>r. if r = 1 then (mk_transpose [1, 2, 0] 20 21)\<lparr>successors := [2]\<rparr>
                     else if r = 2
                     then (mk_transpose [2, 0, 1] 21 22)\<lparr>predecessors := [1], successors := [3]\<rparr>
                     else (mk_op OtherOp [22] [23])\<lparr>predecessors := [2]\<rparr>),
      tensorStore = (\<lambda>t. if t = 20 then (mk_tensor 20 None [1])\<lparr>dims := [2, 3, 4]\<rparr>
                          else if t = 21 then (mk_tensor 21 (Some 1) [2])\<lparr>dims := [3, 4, 2]\<rparr>
                          else if t = 22 then (mk_tensor 22 (Some 2) [3])\<lparr>dims := [2, 3, 4]\<rparr>
                          else (mk_tensor 23 (Some 3) [])\<lparr>dims := [2, 3, 4]\<rparr>)\<rparr>"


definition swap_matmul_graph :: GraphObj where
  "swap_matmul_graph =
     \<lparr>ops = [1, 2], tensors = [20, 21, 24, 23], sorted_flag = False,
      allocator = Allocator_init, rt_requests = [],
      opStore = (\<lambda>r. if r = 1 then (mk_transpose [1, 0] 20 21)\<lparr>successors := [2]\<rparr>
                     else (mk_op MatMul [21, 24] [23])\<lparr>predecessors := [1]\<rparr>),
      tensorStore = (\<lambda>t. if t = 20 then (mk_tensor 20 None [1])\<lparr>dims := [2, 3]\<rparr>
                          else if t = 21 then (mk_tensor 21 (Some 1) [2])\<lparr>dims := [3, 2]\<rparr>
                          else if t = 24 then (mk_tensor 24 None [2])\<lparr>dims := [2, 5]\<rparr>
                          else (mk_tensor 23 (Some 2) [])\<lparr>dims := [3, 5]\<rparr>)\<rparr>"




definition shared_input_matmul_graph :: GraphObj where
  "shared_input_matmul_graph =
     \<lparr>ops = [1, 3], tensors = [20, 21, 23], sorted_flag = False,
      allocator = Allocator_init, rt_requests = [],
      opStore = (\<lambda>r. if r = 1 then (mk_transpose [1, 0] 20 21)\<lparr>successors := [3]\<rparr>
                     else if r = 3 then (mk_op MatMul [21, 21] [23])\<lparr>predecessors := [1]\<rparr>
                     else mk_op OtherOp [] []),
      tensorStore = (\<lambda>t. if t = 20 then (mk_tensor 20 None [1])\<lparr>dims := [3, 3]\<rparr>
                          else if t = 21 then (mk_tensor 21 (Some 1) [3])\<lparr>dims := [3, 3]\<rparr>
                          else if t = 23 then (mk_tensor 23 (Some 3) [])\<lparr>dims := [3, 3]\<rparr>
                          else mk_tensor t None [])\<rparr>"

text \<open>
  Two tensors of 100 and 200 elements of one byte each, and no operator. The byte
  size of a tensor is taken to be the product of its dimensions.
\<close>

definition two_tensor_graph :: GraphObj where
  "two_tensor_graph =
     \<lparr>ops = [], tensors = [1, 2], sorted_flag = False,
      allocator = Allocator_init, rt_requests = [],
      opStore = (\<lambda>r. mk_op OtherOp [] []),
      tensorStore = (\<lambda>t. (mk_tensor t None [])\<lparr>dims := [if t = 1 then 100 else 200]\<rparr>)\<rparr>"

definition bytes_of_dims :: "TensorObj \<Rightarrow> size_t" where
  "bytes_of_dims t = word_of_int (prod_list (dims t))"

section \<open>Properties of the allocator\<close>

subsection \<open>The ordered map keeps its keys ascending\<close>

lemma set_map_assign: "set (map_assign k v m) \<subseteq> insert (k, v) (set m)"
  by (induction m) (auto split: if_splits)

lemma map_ok_assign: "map_ok m \<Longrightarrow> map_ok (map_assign k v m)"
proof (induction m)
  case Nil
  then show ?case by (simp add: map_ok_def)
next
  case (Cons x m)
  obtain k' v' where x: "x = (k', v')" by (cases x)
  from Cons.prems have tl: "map_ok m" and hd: "\<forall>y\<in>set m. k' < fst y"
    by (auto simp: map_ok_def x)
  have "\<not> k < k' \<Longrightarrow> k \<noteq> k' \<Longrightarrow> \<forall>y\<in>set (map_assign k v m). k' < fst y"
    using hd set_map_assign [of k v m] by auto
  then show ?case
    using Cons.IH [OF tl] Cons.prems hd by (auto simp: map_ok_def x)
qed

lemma set_map_erase: "set (map_erase k m) \<subseteq> set m"
  by (induction m) (auto split: if_splits)

lemma map_ok_erase: "map_ok m \<Longrightarrow> map_ok (map_erase k m)"
proof (induction m)
  case Nil
  then show ?case by (simp add: map_ok_def)
next
  case (Cons x m)
  obtain k' v' where x: "x = (k', v')" by (cases x)
  from Cons.prems have tl: "map_ok m" and hd: "\<forall>y\<in>set m. k' < fst y"
    by (auto simp: map_ok_def x)
  have "\<forall>y\<in>set (map_erase k m). k' < fst y"
    using hd set_map_erase [of k m] by auto
  then show ?case
    using Cons.IH [OF tl] Cons.prems by (auto simp: map_ok_def x)
qed

lemma map_ok_alloc: "map_ok (freeBlocks a) \<Longrightarrow> alloc n a = Inr (off, a') \<Longrightarrow> map_ok (freeBlocks a')"
  by (auto simp: alloc_def Let_def map_ok_assign map_ok_erase split: if_splits option.splits)

lemma map_ok_free: "map_ok (freeBlocks a) \<Longrightarrow> free addr n a = Inr a' \<Longrightarrow> map_ok (freeBlocks a')"
  by (auto simp: free_def Let_def map_ok_assign map_ok_erase split: if_splits option.splits prod.splits)

lemma map_ok_run: "map_ok (freeBlocks a) \<Longrightarrow> run cs a = Inr (offs, a') \<Longrightarrow> map_ok (freeBlocks a')"
proof (induction cs arbitrary: a offs)
  case Nil
  then show ?case by simp
next
  case (Cons c cs)
  show ?case
  proof (cases c)
    case (Alloc n)
    with Cons.prems obtain off a1 offs1 where "alloc n a = Inr (off, a1)" "run cs a1 = Inr (offs1, a')"
      by (auto split: sum.splits prod.splits)
    then show ?thesis using Cons.IH Cons.prems(1) map_ok_alloc by blast
  next
    case (Free addr n)
    with Cons.prems obtain a1 where "free addr n a = Inr a1" "run cs a1 = Inr (offs, a')"
      by (auto split: sum.splits)
    then show ?thesis using Cons.IH Cons.prems(1) map_ok_free by blast
  qed
qed

text \<open>Every state reached from the constructor has an ordered table.\<close>

lemma map_ok_reachable: "run cs Allocator_init = Inr (offs, a) \<Longrightarrow> map_ok (freeBlocks a)"
  by (rule map_ok_run [of Allocator_init]) (simp_all add: Allocator_init_def map_ok_def)

subsection \<open>Zero-size requests\<close>

lemma getAlignedSize_zero: "getAlignedSize 0 = 0"
  by (simp add: getAlignedSize_def alignment_def)

text \<open>
  Claim C9, as stated, says that \<open>alloc(0)\<close> returns the current high-water position.
  After \<open>alloc(8)\<close>, \<open>alloc(8)\<close>, \<open>free(0, 8)\<close> the counters are \<open>used = 8\<close> and
  \<open>peak = 16\<close>, and \<open>alloc(0)\<close> returns offset \<open>0\<close>, the start of the free region: a
  zero-size request fits every region, so the first-fit scan serves it.
\<close>

theorem alloc_zero_counterexample:
  "run [Alloc 8, Alloc 8, Free 0 8] Allocator_init =
     Inr ([0, 8], \<lparr>used = 8, peak = 16, ptr = 0, freeBlocks = [(0, 8)]\<rparr>)
   \<and> alloc 0 \<lparr>used = 8, peak = 16, ptr = 0, freeBlocks = [(0, 8)]\<rparr> =
     Inr (0, \<lparr>used = 8, peak = 16, ptr = 0, freeBlocks = [(0, 8)]\<rparr>)"
proof -
  have "run [Alloc 8, Alloc 8, Free 0 8] Allocator_init =
      Inr ([0, 8], \<lparr>used = 8, peak = 16, ptr = 0, freeBlocks = [(0, 8)]\<rparr>)"
    by (simp add: alloc_def free_def getAlignedSize_def alignment_def Allocator_init_def Let_def)
  moreover have "alloc 0 \<lparr>used = 8, peak = 16, ptr = 0, freeBlocks = [(0, 8)]\<rparr> =
      Inr (0, \<lparr>used = 8, peak = 16, ptr = 0, freeBlocks = [(0, 8)]\<rparr>)"
    by (simp add: alloc_def getAlignedSize_zero Let_def)
  ultimately show ?thesis by simp
qed

lemma alloc_zero_state:
  assumes "ptr a = 0" and "map_ok (freeBlocks a)"
  shows "alloc 0 a =
     Inr (case freeBlocks a of [] \<Rightarrow> used a | (block_offset, block_size) # rest \<Rightarrow> block_offset,
          a\<lparr>peak := max (peak a) (used a),
            freeBlocks := (case freeBlocks a of [] \<Rightarrow> []
                           | (block_offset, block_size) # rest \<Rightarrow>
                               if block_size = 0 then rest else freeBlocks a)\<rparr>)"
proof (cases "freeBlocks a")
  case Nil
  then show ?thesis
    using assms getAlignedSize_zero by (cases a) (simp add: alloc_def)
next
  case (Cons b rest)
  obtain bo bs where b: "b = (bo, bs)" by (cases b)
  have lt: "rest = [] \<or> bo < fst (hd rest)"
    using assms(2) Cons b by (cases rest) (auto simp: map_ok_def)
  have "bs \<noteq> 0 \<Longrightarrow> map_assign bo bs rest = (bo, bs) # rest"
    using lt by (cases rest) auto
  then show ?thesis
    using assms getAlignedSize_zero Cons b
    by (cases a) (auto simp: alloc_def Let_def word_greater_zero_iff)
qed

lemma ptr_alloc: "alloc n a = Inr (off, a') \<Longrightarrow> ptr a' = ptr a"
  by (auto simp: alloc_def Let_def split: if_splits option.splits)

lemma ptr_free: "free addr n a = Inr a' \<Longrightarrow> ptr a' = ptr a"
  by (auto simp: free_def Let_def split: if_splits option.splits prod.splits)

lemma ptr_run: "run cs a = Inr (offs, a') \<Longrightarrow> ptr a' = ptr a"
proof (induction cs arbitrary: a offs)
  case Nil
  then show ?case by simp
next
  case (Cons c cs)
  show ?case
  proof (cases c)
    case (Alloc n)
    with Cons.prems obtain off a1 offs1 where "alloc n a = Inr (off, a1)" "run cs a1 = Inr (offs1, a')"
      by (auto split: sum.splits prod.splits)
    then show ?thesis using Cons.IH ptr_alloc by metis
  next
    case (Free addr n)
    with Cons.prems obtain a1 where "free addr n a = Inr a1" "run cs a1 = Inr (offs, a')"
      by (auto split: sum.splits)
    then show ?thesis using Cons.IH ptr_free by metis
  qed
qed

text \<open>
  Claim C9, amended. In every state reached from the constructor by \<open>alloc\<close> and \<open>free\<close>
  calls, \<open>alloc(0)\<close> succeeds and leaves \<open>used\<close> as it is; \<open>peak\<close> becomes the maximum of
  \<open>peak\<close> and \<open>used\<close> (so it is unchanged whenever \<open>used\<close> does not exceed it). With an
  empty free-region table the returned offset is \<open>used\<close>, the bump position, and the
  table stays empty. With a non-empty table the returned offset is that of the lowest
  free region, and the table is unchanged unless that region has length zero, in
  which case the region is removed.
\<close>

theorem alloc_zero:
  assumes "run cs Allocator_init = Inr (offs, a)"
  shows "alloc 0 a =
     Inr (case freeBlocks a of [] \<Rightarrow> used a | (block_offset, block_size) # rest \<Rightarrow> block_offset,
          a\<lparr>peak := max (peak a) (used a),
            freeBlocks := (case freeBlocks a of [] \<Rightarrow> []
                           | (block_offset, block_size) # rest \<Rightarrow>
                               if block_size = 0 then rest else freeBlocks a)\<rparr>)"
proof (rule alloc_zero_state)
  show "ptr a = 0"
    using ptr_run [OF assms] by (simp add: Allocator_init_def)
  show "map_ok (freeBlocks a)"
    using assms by (rule map_ok_reachable)
qed

theorem alloc_zero_witness:
  "run [Alloc 8, Alloc 8, Free 0 8, Free 24 0] Allocator_init =
     Inr ([0, 8], \<lparr>used = 8, peak = 16, ptr = 0, freeBlocks = [(0, 8), (24, 0)]\<rparr>)
   \<and> alloc 0 \<lparr>used = 8, peak = 16, ptr = 0, freeBlocks = [(0, 8), (24, 0)]\<rparr> =
       Inr (0, \<lparr>used = 8, peak = 16, ptr = 0, freeBlocks = [(0, 8), (24, 0)]\<rparr>)"
proof -
  let ?a = "\<lparr>used = 8, peak = 16, ptr = 0, freeBlocks = [(0, 8), (24, 0)]\<rparr>"
  have h: "run [Alloc 8, Alloc 8, Free 0 8, Free 24 0] Allocator_init = Inr ([0, 8], ?a)"
    by (simp add: alloc_def free_def getAlignedSize_def getAlignedSize_zero alignment_def
        Allocator_init_def Let_def)
  from alloc_zero [OF h] h show ?thesis by simp
qed

subsection \<open>\<open>alloc\<close> followed by \<open>free\<close>\<close>

lemma separated_iff:
  "separated T = (sorted_wrt ends_before T \<and> (\<forall>x\<in>set T. unat (fst x) + unat (snd x) < 2 ^ 64))"
proof (induction T rule: separated.induct)
  case 1
  then show ?case by simp
next
  case (2 off len)
  then show ?case by simp
next
  case (3 off len off' len' rest)
  have lt: "unat off' < 2 ^ 64"
    using unsigned_less [of off'] by simp
  have trans: "\<And>y. ends_before (off, len) (off', len') \<Longrightarrow> ends_before (off', len') y
      \<Longrightarrow> ends_before (off, len) y"
    by (simp add: ends_before_def)
  show ?case
    using 3 lt trans by (auto simp: ends_before_def)
qed

lemma first_fit_split:
  "first_fit s T = Some (bo, bs) \<Longrightarrow> \<exists>pre post. T = pre @ (bo, bs) # post \<and> s \<le> bs"
proof (induction T)
  case Nil
  then show ?case by simp
next
  case (Cons x T)
  obtain k l where x: "x = (k, l)" by (cases x)
  show ?case
  proof (cases "s \<le> l")
    case True
    with Cons.prems x have "x = (bo, bs)" by simp
    with True x show ?thesis by (intro exI [of _ "[]"] exI [of _ T]) auto
  next
    case False
    with Cons x obtain pre post where "T = pre @ (bo, bs) # post \<and> s \<le> bs" by auto
    then show ?thesis by (intro exI [of _ "x # pre"] exI [of _ post]) auto
  qed
qed

lemma map_erase_mid:
  "\<forall>x\<in>set pre. fst x \<noteq> k \<Longrightarrow> map_erase k (pre @ (k, v) # post) = pre @ post"
  by (induction pre) auto

lemma map_assign_mid:
  "\<forall>x\<in>set pre. fst x < k \<Longrightarrow> \<forall>x\<in>set post. k < fst x
     \<Longrightarrow> map_assign k v (pre @ post) = pre @ (k, v) # post"
proof (induction pre)
  case Nil
  then show ?case by (cases post) auto
next
  case (Cons x pre)
  then show ?case by (cases x) auto
qed

lemma map_assign_over:
  "\<forall>x\<in>set pre. fst x < k \<Longrightarrow> map_assign k v (pre @ (k, v') # post) = pre @ (k, v) # post"
proof (induction pre)
  case Nil
  then show ?case by simp
next
  case (Cons x pre)
  then show ?case by (cases x) auto
qed

lemma map_find_absent: "\<forall>x\<in>set T. fst x \<noteq> k \<Longrightarrow> map_find k T = None"
  by (induction T) auto

lemma map_find_mid:
  "\<forall>x\<in>set pre. fst x \<noteq> k \<Longrightarrow> map_find k (pre @ (k, v) # post) = Some v"
  by (induction pre) auto

lemma find_prev_absent: "\<forall>x\<in>set T. fst x + snd x \<noteq> addr \<Longrightarrow> find_prev addr T = None"
  by (induction T) auto

text \<open>
  Claim C7, as stated, fails in the state the constructor builds: no region is free,
  so \<open>alloc(8)\<close> bumps \<open>used\<close> and returns offset \<open>0\<close>, and \<open>free(0, 8)\<close> then records
  the region \<open>[0, 8)\<close>. The table was empty before the pair of calls and holds one
  region after it: nothing in the allocator lowers the bump position again.
\<close>

theorem alloc_free_counterexample:
  "freeBlocks Allocator_init = []
   \<and> alloc 8 Allocator_init = Inr (0, \<lparr>used = 8, peak = 8, ptr = 0, freeBlocks = []\<rparr>)
   \<and> free 0 8 \<lparr>used = 8, peak = 8, ptr = 0, freeBlocks = []\<rparr> =
       Inr \<lparr>used = 0, peak = 8, ptr = 0, freeBlocks = [(0, 8)]\<rparr>"
  by (simp add: alloc_def free_def getAlignedSize_def alignment_def Allocator_init_def Let_def)

text \<open>
  Claim C7, amended. Take a state before commit whose free regions lie apart (each
  ends strictly before the next begins, none wraps around the address space), a
  request whose aligned size is not zero, and suppose some free region is large
  enough, so that \<open>alloc\<close> is served from the table. Then \<open>alloc(size)\<close> followed by
  \<open>free(offset, size)\<close> with the returned offset succeeds and leaves the free-region
  table, and \<open>used\<close>, as they were before the \<open>alloc\<close>.
\<close>

theorem alloc_free_restores:
  assumes p: "ptr a = 0"
    and sep: "separated (freeBlocks a)"
    and nz: "getAlignedSize n \<noteq> 0"
    and fit: "first_fit (getAlignedSize n) (freeBlocks a) \<noteq> None"
  shows "\<exists>off a1 a2. alloc n a = Inr (off, a1) \<and> free off n a1 = Inr a2
           \<and> freeBlocks a2 = freeBlocks a \<and> used a2 = used a"
proof -
  define s where "s = getAlignedSize n"
  from fit obtain bo bs where ff: "first_fit s (freeBlocks a) = Some (bo, bs)"
    by (auto simp: s_def)
  then obtain pre post where T: "freeBlocks a = pre @ (bo, bs) # post" and le: "s \<le> bs"
    using first_fit_split by blast
  from sep T have srt: "sorted_wrt ends_before (pre @ (bo, bs) # post)"
    and bnd: "\<forall>x\<in>set (pre @ (bo, bs) # post). unat (fst x) + unat (snd x) < 2 ^ 64"
    by (simp_all add: separated_iff)
  have pre_lt: "\<forall>x\<in>set pre. unat (fst x) + unat (snd x) < unat bo"
    using srt by (auto simp: sorted_wrt_append ends_before_def)
  have post_gt: "\<forall>x\<in>set post. unat bo + unat bs < unat (fst x)"
    using srt by (auto simp: sorted_wrt_append ends_before_def)
  have post_bnd: "\<forall>x\<in>set post. unat (fst x) + unat (snd x) < 2 ^ 64"
    using bnd by simp
  have b_bnd: "unat bo + unat bs < 2 ^ 64"
    using bnd by simp
  have us: "unat s \<le> unat bs" using le by (simp add: word_le_nat_alt)
  have spos: "0 < unat s" using nz by (simp add: s_def unat_gt_0)
  have u_bos: "unat (bo + s) = unat bo + unat s"
    using us b_bnd by (intro unat_add_lem [THEN iffD1]) simp
  have u_bobs: "unat (bo + bs) = unat bo + unat bs"
    using b_bnd by (intro unat_add_lem [THEN iffD1]) simp
  have pre_key_lt: "\<forall>x\<in>set pre. fst x < bo"
    using pre_lt by (auto simp: word_less_nat_alt)
  have pre_key_lt': "\<forall>x\<in>set pre. fst x < bo + s"
    using pre_lt u_bos by (auto simp: word_less_nat_alt)
  have post_key_gt: "\<forall>x\<in>set post. bo < fst x"
    using post_gt by (auto simp: word_less_nat_alt)
  have post_key_gt': "\<forall>x\<in>set post. bo + s < fst x"
    using post_gt u_bos us by (auto simp: word_less_nat_alt)
  have lt_bos: "bo < bo + s"
    using u_bos spos by (simp add: word_less_nat_alt)
  have no_prev: "\<forall>x\<in>set (pre @ (bo, bs) # post). fst x + snd x \<noteq> bo"
  proof
    fix x assume x: "x \<in> set (pre @ (bo, bs) # post)"
    have ux: "unat (fst x + snd x) = unat (fst x) + unat (snd x)"
      using bnd x by (intro unat_add_lem [THEN iffD1]) auto
    have "unat (fst x + snd x) \<noteq> unat bo"
      using x ux pre_lt post_gt u_bobs us spos by auto
    then show "fst x + snd x \<noteq> bo" by auto
  qed
  have erase: "map_erase bo (freeBlocks a) = pre @ post"
    using pre_key_lt T by (simp add: map_erase_mid less_imp_neq)
  have snz: "s \<noteq> 0" using nz by (simp add: s_def)
  have pre_ne: "\<forall>x\<in>set pre. fst x \<noteq> bo + s" using pre_key_lt' by auto
  have addsub: "s + (bs - s) = bs" by simp
  show ?thesis
  proof (cases "bs = s")
    case True
    have a1: "alloc n a = Inr (bo, a\<lparr>used := used a + s, peak := max (peak a) (used a + s),
        freeBlocks := pre @ post\<rparr>)"
      using p ff erase True by (simp add: alloc_def s_def [symmetric] Let_def)
    have ins: "map_assign bo s (pre @ post) = pre @ (bo, bs) # post"
      using True pre_key_lt post_key_gt by (simp add: map_assign_mid)
    have nf: "map_find (bo + s) (pre @ (bo, bs) # post) = None"
      using pre_key_lt' post_key_gt' lt_bos by (intro map_find_absent) auto
    have np: "find_prev bo (pre @ (bo, bs) # post) = None"
      using no_prev by (rule find_prev_absent)
    have "free bo n (a\<lparr>used := used a + s, peak := max (peak a) (used a + s),
        freeBlocks := pre @ post\<rparr>) = Inr (a\<lparr>used := used a, peak := max (peak a) (used a + s),
        freeBlocks := pre @ (bo, bs) # post\<rparr>)"
      using p ins nf np by (simp add: free_def s_def [symmetric] Let_def)
    with a1 T show ?thesis by simp
  next
    case False
    then have rem: "0 < bs - s" by (simp add: word_greater_zero_iff)
    have shr: "map_assign (bo + s) (bs - s) (pre @ post) = pre @ (bo + s, bs - s) # post"
      using pre_key_lt' post_key_gt' by (simp add: map_assign_mid)
    have a1: "alloc n a = Inr (bo, a\<lparr>used := used a + s, peak := max (peak a) (used a + s),
        freeBlocks := pre @ (bo + s, bs - s) # post\<rparr>)"
      using p ff erase rem shr by (simp add: alloc_def s_def [symmetric] Let_def)
    have ins: "map_assign bo s (pre @ (bo + s, bs - s) # post) = pre @ (bo, s) # (bo + s, bs - s) # post"
      using pre_key_lt lt_bos post_key_gt map_assign_mid [of pre bo "(bo + s, bs - s) # post" s]
      by simp
    have fnd: "map_find (bo + s) (pre @ (bo, s) # (bo + s, bs - s) # post) = Some (bs - s)"
      using pre_ne snz map_find_mid [of "pre @ [(bo, s)]" "bo + s" "bs - s" post]
      by auto
    have er2: "map_erase (bo + s) (pre @ (bo, s) # (bo + s, bs - s) # post) = pre @ (bo, s) # post"
      using pre_ne snz map_erase_mid [of "pre @ [(bo, s)]" "bo + s" "bs - s" post]
      by auto
    have ov: "map_assign bo bs (pre @ (bo, s) # post) = pre @ (bo, bs) # post"
      using pre_key_lt by (simp add: map_assign_over)
    have np: "find_prev bo (pre @ (bo, bs) # post) = None"
      using no_prev by (rule find_prev_absent)
    have "free bo n (a\<lparr>used := used a + s, peak := max (peak a) (used a + s),
        freeBlocks := pre @ (bo + s, bs - s) # post\<rparr>) = Inr (a\<lparr>used := used a, peak := max (peak a) (used a + s),
        freeBlocks := pre @ (bo, bs) # post\<rparr>)"
      using p ins fnd er2 ov np addsub by (simp add: free_def s_def [symmetric] Let_def)
    with a1 T show ?thesis by simp
  qed
qed

theorem alloc_free_restores_witness:
  "ptr \<lparr>used = 8, peak = 48, ptr = 0, freeBlocks = [(0, 8), (16, 24)]\<rparr> = 0
   \<and> separated [(0, 8), (16, 24)]
   \<and> getAlignedSize 10 \<noteq> 0
   \<and> first_fit (getAlignedSize 10) [(0, 8), (16, 24)] \<noteq> None
   \<and> (\<exists>off a1 a2.
         alloc 10 \<lparr>used = 8, peak = 48, ptr = 0, freeBlocks = [(0, 8), (16, 24)]\<rparr> = Inr (off, a1)
         \<and> free off 10 a1 = Inr a2
         \<and> freeBlocks a2 = [(0, 8), (16, 24)] \<and> used a2 = 8)"
  using alloc_free_restores
    [of "\<lparr>used = 8, peak = 48, ptr = 0, freeBlocks = [(0, 8), (16, 24)]\<rparr>" 10]
  by (simp add: getAlignedSize_def alignment_def)

subsection \<open>Coalescing\<close>

text \<open>
  Claim C3 says that after any \<open>free\<close> call no region of the table ends where another
  begins. The calls below are all well-formed: every \<open>free\<close> releases a region that
  an earlier \<open>alloc\<close> returned (all four \<open>alloc\<close> calls return offset \<open>0\<close>) and that was
  not released before. After the last \<open>free\<close> the table holds \<open>[0, 16)\<close> and
  \<open>[16, 24)\<close>: the first region ends where the second begins.
\<close>

theorem free_leaves_adjacent_regions:
  "run [Alloc 16, Free 0 16, Alloc 24, Alloc 8, Free 0 24, Alloc 16, Free 0 8] Allocator_init =
     Inr ([0, 0, 0, 0], \<lparr>used = 16, peak = 32, ptr = 0, freeBlocks = [(0, 16), (16, 8)]\<rparr>)
   \<and> adjacent_pairs [(0, 16), (16, 8)] = [((0, 16), (16, 8))]
   \<and> \<not> coalesced [(0, 16), (16, 8)]"
  by (simp add: alloc_def free_def getAlignedSize_def alignment_def Allocator_init_def Let_def
      adjacent_pairs_def coalesced_def)

section \<open>Properties of the matmul shape inference\<close>

lemma swap_last_two_snoc: "swap_last_two (p @ [a, b]) = p @ [b, a]"
  by (simp add: swap_last_two_def Let_def nth_append list_update_append)

lemma matmul_inferShape_snoc:
  "matmul_inferShape tA tB (pa @ [a1, a2]) (pb @ [b1, b2]) =
     Inr (if (if tA then a1 else a2) \<noteq> (if tB then b2 else b1) then None
          else Some [pa @ [if tA then a2 else a1, if tB then b1 else b2]])"
  by (simp add: matmul_inferShape_def swap_last_two_snoc Let_def nth_append)

lemma rank2_snoc:
  assumes "2 \<le> length (s :: Shape)"
  shows "\<exists>p a b. s = p @ [a, b]"
proof -
  have "s = take (length s - 2) s @ drop (length s - 2) s" by simp
  moreover have "length (drop (length s - 2) s) = 2" using assms by simp
  then obtain a b where "drop (length s - 2) s = [a, b]"
    by (cases "drop (length s - 2) s"; cases "tl (drop (length s - 2) s)") auto
  ultimately show ?thesis by metis
qed

text \<open>
  Claim C10. Let the shapes of \<open>A\<close> and \<open>B\<close> have rank at least two, so that \<open>A\<close> is
  \<open>pa @ [a1, a2]\<close> and \<open>B\<close> is \<open>pb @ [b1, b2]\<close>. After the swaps the last dimension of
  \<open>A\<close> is \<open>a1\<close> under \<open>transA\<close> and \<open>a2\<close> otherwise, and the second-to-last dimension
  of \<open>B\<close> is \<open>b2\<close> under \<open>transB\<close> and \<open>b1\<close> otherwise. \<open>inferShape\<close> returns no value
  exactly when the two differ; otherwise it returns the single shape made of the
  leading dimensions \<open>pa\<close> of \<open>A\<close>, the adjusted second-to-last dimension of \<open>A\<close> and
  the adjusted last dimension of \<open>B\<close>. The leading dimensions \<open>pb\<close> of \<open>B\<close> play no
  part in the result.
\<close>

theorem matmul_inferShape_rank2:
  assumes "2 \<le> length A" and "2 \<le> length B"
  shows "\<exists>pa a1 a2 pb b1 b2.
           A = pa @ [a1, a2] \<and> B = pb @ [b1, b2]
           \<and> matmul_inferShape tA tB A B =
               Inr (if (if tA then a1 else a2) \<noteq> (if tB then b2 else b1) then None
                    else Some [pa @ [if tA then a2 else a1, if tB then b1 else b2]])"
proof -
  from rank2_snoc [OF assms(1)] obtain pa a1 a2 where A: "A = pa @ [a1, a2]" by blast
  from rank2_snoc [OF assms(2)] obtain pb b1 b2 where B: "B = pb @ [b1, b2]" by blast
  show ?thesis
    using matmul_inferShape_snoc [of tA tB pa a1 a2 pb b1 b2] A B by blast
qed

theorem matmul_inferShape_rank2_witness:
  "2 \<le> length [5, 2, 3 :: int] \<and> 2 \<le> length [7, 4, 3 :: int]
   \<and> matmul_inferShape False True [5, 2, 3] [7, 4, 3] = Inr (Some [[5, 2, 4]])
   \<and> matmul_inferShape False False [5, 2, 3] [7, 4, 3] = Inr None"
proof -
  have h: "2 \<le> length [5, 2, 3 :: int]" "2 \<le> length [7, 4, 3 :: int]" by simp_all
  from matmul_inferShape_rank2 [OF h, of False True]
  have "matmul_inferShape False True [5, 2, 3] [7, 4, 3] = Inr (Some [[5, 2, 4]])"
    by (auto simp: append_eq_Cons_conv Cons_eq_append_conv)
  moreover from matmul_inferShape_rank2 [OF h, of False False]
  have "matmul_inferShape False False [5, 2, 3] [7, 4, 3] = Inr None"
    by (auto simp: append_eq_Cons_conv Cons_eq_append_conv)
  ultimately show ?thesis by simp
qed

section \<open>Properties of the graph\<close>

subsection \<open>Shape inference stops at the first failure\<close>

lemma shape_walk_append:
  "shape_walk infer (xs @ ys) g =
     (case shape_walk infer xs g of Inl e \<Rightarrow> Inl e | Inr g' \<Rightarrow> shape_walk infer ys g')"
  by (induction xs arbitrary: g) (auto simp: Let_def split: option.splits sum.splits)

text \<open>
  Claim C8. Let the walk have passed the operators \<open>pre\<close> and reached the graph state
  \<open>g1\<close>, and let the shape inference of the next operator return no value there.
  Then \<open>shape_infer\<close> ends with the failure \<open>AssertionFailed\<close>, and the graph it leaves
  is \<open>g1\<close>: no operator after the failing one is visited, and the failing one is
  not tried again.
\<close>

theorem shape_infer_aborts:
  assumes "ops g = pre @ op # post"
    and "shape_walk infer pre g = Inr g1"
    and "infer g1 op = None"
  shows "shape_infer infer g = Inl (AssertionFailed, g1)"
  using assms by (simp add: shape_infer_def shape_walk_append)

theorem shape_infer_aborts_witness:
  "ops chain_graph = [2] @ 1 # []
   \<and> shape_walk (\<lambda>g op. if op = 2 then Some [[3]] else None) [2] chain_graph =
       Inr (setShape 12 [3] chain_graph)
   \<and> (\<lambda>g op. if op = 2 then Some [[3 :: int]] else None) (setShape 12 [3] chain_graph) (1 :: nat) = None
   \<and> shape_infer (\<lambda>g op. if op = 2 then Some [[3]] else None) chain_graph =
       Inl (AssertionFailed, setShape 12 [3] chain_graph)"
proof -
  let ?infer = "\<lambda>(g :: GraphObj) (op :: nat). if op = 2 then Some [[3 :: int]] else None"
  have h1: "ops chain_graph = [2] @ 1 # []" by (simp add: chain_graph_def)
  have h2: "shape_walk ?infer [2] chain_graph = Inr (setShape 12 [3] chain_graph)"
    by (simp add: chain_graph_def mk_op_def mk_tensor_def getTensor_def setShape_def Let_def)
  have h3: "?infer (setShape 12 [3] chain_graph) 1 = None" by simp
  from shape_infer_aborts [OF h1 h2 h3] h1 h2 show ?thesis by simp
qed

subsection \<open>Memory planning of two tensors\<close>

lemma topo_sort_keeps:
  "tensors (snd (topo_sort g)) = tensors g"
  "tensorStore (snd (topo_sort g)) = tensorStore g"
  "allocator (snd (topo_sort g)) = allocator g"
  "rt_requests (snd (topo_sort g)) = rt_requests g"
  "opStore (snd (topo_sort g)) = opStore g"
  by (simp_all add: topo_sort_def split: option.splits)

text \<open>
  Claim C2. Let the graph hold exactly two tensors, of 100 and 200 bytes, and an
  allocator as the constructor builds it, let no real buffer have been requested
  yet, and let the topological sort succeed (\<open>dataMalloc\<close> asserts it). Then phase 1
  records the offsets 0 and 104, the peak is 304, the runtime is asked once, for 304
  bytes, and the two tensors are bound to the returned base address plus 0 and
  plus 104.
\<close>

theorem dataMalloc_two_tensors:
  assumes ts: "tensors g = [t1, t2]"
    and b1: "getBytes (tensorStore g t1) = 100"
    and b2: "getBytes (tensorStore g t2) = 200"
    and fresh: "allocator g = Allocator_init"
    and none: "rt_requests g = []"
    and srt: "fst (topo_sort g)"
  shows "plan_offsets getBytes (tensorStore g) (tensors g) (allocator g) =
           Inr ([0, 104], \<lparr>used = 304, peak = 304, ptr = 0, freeBlocks = []\<rparr>)
       \<and> (\<exists>g'. dataMalloc getBytes rt_alloc g = Inr g'
              \<and> peak (allocator g') = 304
              \<and> rt_requests g' = [304]
              \<and> ptr (allocator g') = rt_alloc 304
              \<and> dataBlob (tensorStore g' t1) = Some (rt_alloc 304 + 0)
              \<and> dataBlob (tensorStore g' t2) = Some (rt_alloc 304 + 104))"
proof -
  have ne: "t1 \<noteq> t2" using b1 b2 by auto
  have a100: "getAlignedSize 100 = 104" and a200: "getAlignedSize 200 = 200"
    by (simp_all add: getAlignedSize_def alignment_def)
  have plan: "plan_offsets getBytes (tensorStore g) [t1, t2] Allocator_init =
      Inr ([0, 104], \<lparr>used = 304, peak = 304, ptr = 0, freeBlocks = []\<rparr>)"
    using b1 b2 a100 a200 by (simp add: alloc_def Allocator_init_def Let_def)
  obtain g1 where g1: "topo_sort g = (True, g1)"
    using srt by (cases "topo_sort g") auto
  then have keep: "tensors g1 = [t1, t2]" "tensorStore g1 = tensorStore g"
      "allocator g1 = Allocator_init" "rt_requests g1 = []"
    using topo_sort_keeps [of g] ts fresh none by simp_all
  have "dataMalloc getBytes rt_alloc g =
      Inr (g1\<lparr>allocator := \<lparr>used = 304, peak = 304, ptr = rt_alloc 304, freeBlocks = []\<rparr>,
              rt_requests := [304],
              tensorStore := bind_blobs (rt_alloc 304) [(t1, 0), (t2, 104)] (tensorStore g)\<rparr>)"
    using g1 keep plan by (simp add: dataMalloc_def getPtr_def)
  then show ?thesis
    using plan ts fresh ne by simp
qed

theorem dataMalloc_two_tensors_witness:
  "tensors two_tensor_graph = [1, 2]
   \<and> bytes_of_dims (tensorStore two_tensor_graph 1) = 100
   \<and> bytes_of_dims (tensorStore two_tensor_graph 2) = 200
   \<and> allocator two_tensor_graph = Allocator_init
   \<and> rt_requests two_tensor_graph = []
   \<and> fst (topo_sort two_tensor_graph)
   \<and> (\<exists>g'. dataMalloc bytes_of_dims (\<lambda>n. 4096) two_tensor_graph = Inr g'
          \<and> peak (allocator g') = 304
          \<and> rt_requests g' = [304]
          \<and> dataBlob (tensorStore g' 1) = Some 4096
          \<and> dataBlob (tensorStore g' 2) = Some 4200)"
proof -
  have h: "tensors two_tensor_graph = [1, 2]"
    "bytes_of_dims (tensorStore two_tensor_graph 1) = 100"
    "bytes_of_dims (tensorStore two_tensor_graph 2) = 200"
    "allocator two_tensor_graph = Allocator_init"
    "rt_requests two_tensor_graph = []"
    "fst (topo_sort two_tensor_graph)"
    by (simp_all add: two_tensor_graph_def bytes_of_dims_def mk_tensor_def topo_sort_def
        topo_loop.simps)
  from dataMalloc_two_tensors [OF h, of "\<lambda>n. 4096"]
  obtain g' where "dataMalloc bytes_of_dims (\<lambda>n. 4096) two_tensor_graph = Inr g'"
    "peak (allocator g') = 304" "rt_requests g' = [304]"
    "dataBlob (tensorStore g' 1) = Some (4096 + 0)"
    "dataBlob (tensorStore g' 2) = Some (4096 + 104)"
    by blast
  then have "\<exists>g'. dataMalloc bytes_of_dims (\<lambda>n. 4096) two_tensor_graph = Inr g'
          \<and> peak (allocator g') = 304
          \<and> rt_requests g' = [304]
          \<and> dataBlob (tensorStore g' 1) = Some 4096
          \<and> dataBlob (tensorStore g' 2) = Some 4200"
    by simp
  with h show ?thesis by simp
qed

subsection \<open>Topological sort\<close>

lemma in_producers:
  "p \<in> set (producers g c) \<longleftrightarrow>
     (\<exists>t \<in> set (inputs (opStore g c)). source (tensorStore g t) = Some p)"
proof
  assume "p \<in> set (producers g c)"
  then obtain t where "t \<in> set (inputs (opStore g c))"
    and "p \<in> set (case source (tensorStore g t) of None \<Rightarrow> [] | Some p \<Rightarrow> [p])"
    by (auto simp: producers_def)
  then show "\<exists>t \<in> set (inputs (opStore g c)). source (tensorStore g t) = Some p"
    by (cases "source (tensorStore g t)") auto
next
  assume "\<exists>t \<in> set (inputs (opStore g c)). source (tensorStore g t) = Some p"
  then show "p \<in> set (producers g c)"
    by (force simp: producers_def)
qed

lemma placeable_iff:
  "placeable g flags op = (op \<notin> flags \<and> set (producers g op) \<subseteq> flags)"
proof -
  have "list_all (\<lambda>input. case source (tensorStore g input) of None \<Rightarrow> True | Some p \<Rightarrow> p \<in> flags)
      (inputs (opStore g op)) = (\<forall>p. p \<in> set (producers g op) \<longrightarrow> p \<in> flags)"
    unfolding in_producers list_all_iff
    by (auto split: option.splits)
  then show ?thesis by (auto simp: placeable_def)
qed

lemma edges_iff: "(p, c) \<in> edges g \<longleftrightarrow> c \<in> set (ops g) \<and> p \<in> set (producers g c)"
  by (simp add: edges_def in_producers)

lemma dependency_order_snoc:
  assumes "dependency_order g srt" and "set (producers g op) \<subseteq> set srt"
  shows "dependency_order g (srt @ [op])"
  unfolding dependency_order_def
proof (intro allI impI ballI)
  fix i p
  assume i: "i < length (srt @ [op])" and p: "p \<in> set (producers g ((srt @ [op]) ! i))"
  show "p \<in> set (take i (srt @ [op]))"
  proof (cases "i < length srt")
    case True
    with assms(1) p show ?thesis
      by (auto simp: dependency_order_def nth_append)
  next
    case False
    with i have "i = length srt" by simp
    with assms(2) p show ?thesis by auto
  qed
qed

lemma topo_pass_inv:
  "set os \<subseteq> set (ops g) \<Longrightarrow> sort_inv g srt flags
     \<Longrightarrow> topo_pass g os (m, srt, flags) = (m', srt', flags') \<Longrightarrow> sort_inv g srt' flags'"
proof (induction os arbitrary: m srt flags)
  case Nil
  then show ?case by simp
next
  case (Cons op os)
  show ?case
  proof (cases "placeable g flags op")
    case True
    with Cons.prems(2) have "sort_inv g (srt @ [op]) (insert op flags)"
      using Cons.prems(1) by (auto simp: sort_inv_def placeable_iff intro: dependency_order_snoc)
    moreover from True Cons.prems(3)
    have "topo_pass g os (True, srt @ [op], insert op flags) = (m', srt', flags')" by simp
    ultimately show ?thesis using Cons.IH Cons.prems(1) by auto
  next
    case False
    with Cons.prems(3) have "topo_pass g os (m, srt, flags) = (m', srt', flags')" by simp
    then show ?thesis using Cons.IH Cons.prems(1,2) by auto
  qed
qed

lemma topo_pass_True:
  "topo_pass g os (True, srt, flags) = (m', srt', flags') \<Longrightarrow> m'"
  by (induction os arbitrary: srt flags) (auto split: if_splits)

lemma topo_pass_progress:
  "\<exists>op \<in> set os. placeable g flags op
     \<Longrightarrow> topo_pass g os (m, srt, flags) = (m', srt', flags') \<Longrightarrow> m'"
proof (induction os arbitrary: m srt flags)
  case Nil
  then show ?case by simp
next
  case (Cons op os)
  show ?case
  proof (cases "placeable g flags op")
    case True
    with Cons.prems(2) show ?thesis by (auto dest: topo_pass_True)
  next
    case False
    with Cons.prems have "\<exists>op \<in> set os. placeable g flags op"
      and "topo_pass g os (m, srt, flags) = (m', srt', flags')" by auto
    then show ?thesis by (rule Cons.IH)
  qed
qed

lemma finite_edges: "finite (edges g)"
proof -
  have "edges g \<subseteq> (\<Union>c \<in> set (ops g). set (producers g c)) \<times> set (ops g)"
    by (auto simp: edges_iff)
  moreover have "finite ((\<Union>c \<in> set (ops g). set (producers g c)) \<times> set (ops g))"
    by simp
  ultimately show ?thesis by (rule finite_subset)
qed

lemma exists_placeable:
  assumes acyc: "acyclic (edges g)"
    and closed: "\<forall>c \<in> set (ops g). set (producers g c) \<subseteq> set (ops g)"
    and inv: "sort_inv g srt flags"
    and more: "u \<in> set (ops g)" "u \<notin> set srt"
  shows "\<exists>op \<in> set (ops g). placeable g flags op"
proof -
  have "wf (edges g)"
    using finite_edges acyc by (rule finite_acyclic_wf)
  moreover have "u \<in> set (ops g) - set srt" using more by simp
  ultimately obtain z where z: "z \<in> set (ops g) - set srt"
    and min: "\<And>y. (y, z) \<in> edges g \<Longrightarrow> y \<notin> set (ops g) - set srt"
    using wfE_min [of "edges g" u "set (ops g) - set srt"] by blast
  have "set (producers g z) \<subseteq> flags"
  proof
    fix p assume p: "p \<in> set (producers g z)"
    with z have "(p, z) \<in> edges g" by (simp add: edges_iff)
    then have "p \<notin> set (ops g) - set srt" by (rule min)
    moreover from closed z p have "p \<in> set (ops g)" by auto
    ultimately show "p \<in> flags" using inv by (simp add: sort_inv_def)
  qed
  with z inv have "placeable g flags z"
    by (simp add: placeable_iff sort_inv_def)
  with z show ?thesis by auto
qed

lemma short_has_unplaced:
  assumes "distinct srt" and "length srt < length os" and "distinct os"
  shows "\<exists>u \<in> set os. u \<notin> set srt"
proof (rule ccontr)
  assume "\<not> ?thesis"
  then have "set os \<subseteq> set srt" by auto
  then have "card (set os) \<le> card (set srt)" by (simp add: card_mono)
  with assms show False by (simp add: distinct_card)
qed

lemma topo_loop_acyclic:
  "acyclic (edges g) \<Longrightarrow> \<forall>c \<in> set (ops g). set (producers g c) \<subseteq> set (ops g)
     \<Longrightarrow> distinct (ops g) \<Longrightarrow> sort_inv g srt flags
     \<Longrightarrow> \<exists>res. topo_loop g srt flags = Some res \<and> sort_inv g res (set res)
            \<and> length (ops g) \<le> length res"
proof (induction g srt flags rule: topo_loop.induct)
  case (1 g srt flags)
  note acyc = "1.prems"(1) and closed = "1.prems"(2) and dist = "1.prems"(3)
    and inv = "1.prems"(4)
  show ?case
  proof (cases "length srt < length (ops g)")
    case False
    then have "topo_loop g srt flags = Some srt"
      by (simp add: topo_loop.simps [of g srt flags])
    with False inv show ?thesis by (simp add: sort_inv_def)
  next
    case True
    obtain m srt' flags' where pass: "topo_pass g (ops g) (False, srt, flags) = (m, srt', flags')"
      by (cases "topo_pass g (ops g) (False, srt, flags)") auto
    have inv': "sort_inv g srt' flags'"
      using topo_pass_inv [OF _ inv pass] by simp
    have "distinct srt" using inv by (simp add: sort_inv_def)
    from short_has_unplaced [OF this True dist]
    obtain u where "u \<in> set (ops g)" "u \<notin> set srt" by auto
    with acyc closed inv have "\<exists>op \<in> set (ops g). placeable g flags op"
      using exists_placeable by blast
    from topo_pass_progress [OF this pass] have m: m .
    have "\<exists>res. topo_loop g srt' flags' = Some res \<and> sort_inv g res (set res)
            \<and> length (ops g) \<le> length res"
    proof -
      have nn: "\<not> \<not> m" using m by simp
      show ?thesis
        by (rule "1.IH" [OF True pass [symmetric] refl nn acyc closed dist inv'])
    qed
    moreover have "topo_loop g srt flags = topo_loop g srt' flags'"
      using True pass m by (simp add: topo_loop.simps [of g srt flags])
    ultimately show ?thesis by simp
  qed
qed

lemma producer_before:
  assumes dep: "dependency_order g os"
    and pc: "(p, c) \<in> (edges g)\<^sup>+"
  shows "\<forall>i < length os. os ! i = c \<longrightarrow> (\<exists>j < i. os ! j = p)"
  using pc
proof (induction rule: trancl_induct)
  case (base c)
  show ?case
  proof (intro allI impI)
    fix i assume i: "i < length os" and c: "os ! i = c"
    from base have "p \<in> set (producers g c)" by (simp add: edges_iff)
    with dep i c have "p \<in> set (take i os)" by (auto simp: dependency_order_def)
    then obtain j where "j < length (take i os)" "take i os ! j = p"
      by (auto simp: in_set_conv_nth)
    then show "\<exists>j < i. os ! j = p" by auto
  qed
next
  case (step b c)
  show ?case
  proof (intro allI impI)
    fix i assume i: "i < length os" and c: "os ! i = c"
    from step.hyps(2) have "b \<in> set (producers g c)" by (simp add: edges_iff)
    with dep i c have "b \<in> set (take i os)" by (auto simp: dependency_order_def)
    then obtain j where j: "j < i" "os ! j = b"
      by (auto simp: in_set_conv_nth)
    from j i have "j < length os" by simp
    with step.IH j obtain k where "k < j" "os ! k = p" by blast
    with j have "k < i \<and> os ! k = p" by simp
    then show "\<exists>j < i. os ! j = p" by blast
  qed
qed

lemma cycle_not_ordered:
  assumes dep: "dependency_order g os" and cyc: "(x, x) \<in> (edges g)\<^sup>+"
  shows "x \<notin> set os"
proof -
  have "i < length os \<Longrightarrow> os ! i \<noteq> x" for i
  proof (induction i rule: less_induct)
    case (less i)
    show ?case
    proof
      assume "os ! i = x"
      with producer_before [OF dep cyc] less.prems obtain j where "j < i" "os ! j = x"
        by auto
      with less show False by auto
    qed
  qed
  then show ?thesis by (auto simp: in_set_conv_nth)
qed

lemma cycle_in_ops: "(x, x) \<in> (edges g)\<^sup>+ \<Longrightarrow> x \<in> set (ops g)"
  by (auto dest!: tranclD2 simp: edges_iff)

lemma topo_loop_cycle:
  "(x, x) \<in> (edges g)\<^sup>+ \<Longrightarrow> sort_inv g srt flags \<Longrightarrow> topo_loop g srt flags = None"
proof (induction g srt flags rule: topo_loop.induct)
  case (1 g srt flags)
  note cyc = "1.prems"(1) and inv = "1.prems"(2)
  have "x \<notin> set srt"
    using inv cyc by (auto simp: sort_inv_def dest: cycle_not_ordered)
  moreover have "x \<in> set (ops g)" using cyc by (rule cycle_in_ops)
  ultimately have "set srt \<subset> set (ops g)"
    using inv by (auto simp: sort_inv_def)
  then have "card (set srt) < card (set (ops g))"
    by (simp add: psubset_card_mono)
  moreover have "card (set srt) = length srt"
    using inv by (simp add: sort_inv_def distinct_card)
  moreover have "card (set (ops g)) \<le> length (ops g)" by (rule card_length)
  ultimately have lt: "length srt < length (ops g)" by simp
  obtain m srt' flags' where pass: "topo_pass g (ops g) (False, srt, flags) = (m, srt', flags')"
    by (cases "topo_pass g (ops g) (False, srt, flags)") auto
  show ?case
  proof (cases m)
    case False
    with lt pass show ?thesis by (simp add: topo_loop.simps [of g srt flags])
  next
    case True
    then have nn: "\<not> \<not> m" by simp
    have inv': "sort_inv g srt' flags'"
      using topo_pass_inv [OF _ inv pass] by simp
    have "topo_loop g srt' flags' = None"
      by (rule "1.IH" [OF lt pass [symmetric] refl nn cyc inv'])
    with lt pass True show ?thesis by (simp add: topo_loop.simps [of g srt flags])
  qed
qed

lemma sort_inv_init: "sort_inv g [] {}"
  by (simp add: sort_inv_def dependency_order_def)

lemma dependency_order_store:
  "opStore g' = opStore g \<Longrightarrow> tensorStore g' = tensorStore g
     \<Longrightarrow> dependency_order g' os = dependency_order g os"
  by (simp add: dependency_order_def producers_def)

text \<open>A list already in dependency order is placed whole by the first pass.\<close>

lemma topo_pass_ordered:
  "dependency_order g (srt @ os) \<Longrightarrow> distinct (srt @ os)
     \<Longrightarrow> topo_pass g os (m, srt, set srt) = (m \<or> os \<noteq> [], srt @ os, set (srt @ os))"
proof (induction os arbitrary: m srt)
  case Nil
  then show ?case by simp
next
  case (Cons op os)
  have "set (producers g op) \<subseteq> set srt"
    using Cons.prems(1) by (auto simp: dependency_order_def dest!: spec [of _ "length srt"])
  moreover have "op \<notin> set srt" using Cons.prems(2) by simp
  ultimately have pl: "placeable g (set srt) op" by (simp add: placeable_iff)
  have "topo_pass g os (True, (srt @ [op]), set (srt @ [op]))
      = (True \<or> os \<noteq> [], (srt @ [op]) @ os, set ((srt @ [op]) @ os))"
    using Cons.prems by (intro Cons.IH) simp_all
  with pl show ?case by simp
qed

lemma topo_loop_ordered:
  assumes "dependency_order g (ops g)" and "distinct (ops g)"
  shows "topo_loop g [] {} = Some (ops g)"
proof (cases "ops g = []")
  case True
  then show ?thesis by (simp add: topo_loop.simps [of g "[]" "{}"])
next
  case False
  have "topo_pass g (ops g) (False, [], set []) = (True, ops g, set (ops g))"
    using topo_pass_ordered [of g "[]" "ops g" False] assms False by simp
  then show ?thesis
    using False
    by (simp add: topo_loop.simps [of g "[]" "{}"] topo_loop.simps [of g "ops g" "set (ops g)"])
qed

text \<open>What a pass appends is a subsequence of the list it scans.\<close>

lemma topo_pass_appends:
  "topo_pass g os (m, srt, flags) = (m', srt', flags')
     \<Longrightarrow> \<exists>placed. srt' = srt @ placed \<and> subseq placed os"
proof (induction os arbitrary: m srt flags)
  case Nil
  then show ?case by simp
next
  case (Cons op os)
  show ?case
  proof (cases "placeable g flags op")
    case True
    with Cons.prems have "topo_pass g os (True, srt @ [op], insert op flags) = (m', srt', flags')"
      by simp
    from Cons.IH [OF this] obtain placed where "srt' = (srt @ [op]) @ placed" "subseq placed os"
      by auto
    then have "srt' = srt @ (op # placed) \<and> subseq (op # placed) (op # os)" by simp
    then show ?thesis by blast
  next
    case False
    with Cons.prems have "topo_pass g os (m, srt, flags) = (m', srt', flags')" by simp
    from Cons.IH [OF this] obtain placed where "srt' = srt @ placed" "subseq placed os"
      by auto
    then have "srt' = srt @ placed \<and> subseq placed (op # os)"
      by (simp add: list_emb_Cons)
    then show ?thesis by blast
  qed
qed

lemma topo_loop_layers:
  "topo_loop g srt flags = Some res
     \<Longrightarrow> res = srt @ concat (topo_layers g srt flags)
       \<and> (\<forall>layer \<in> set (topo_layers g srt flags). subseq layer (ops g))"
proof (induction g srt flags arbitrary: res rule: topo_loop.induct)
  case (1 g srt flags)
  show ?case
  proof (cases "length srt < length (ops g)")
    case False
    have "topo_layers g srt flags = []"
      using False by (subst topo_layers.simps) simp
    moreover have "res = srt"
      using False "1.prems" by (subst (asm) topo_loop.simps) simp
    ultimately show ?thesis by simp
  next
    case True
    obtain m srt' flags' where pass: "topo_pass g (ops g) (False, srt, flags) = (m, srt', flags')"
      by (cases "topo_pass g (ops g) (False, srt, flags)") auto
    have m: m
      using True pass "1.prems" by (subst (asm) topo_loop.simps) (auto split: if_splits)
    then have nn: "\<not> \<not> m" by simp
    have res: "topo_loop g srt' flags' = Some res"
      using True pass m "1.prems" by (subst (asm) topo_loop.simps) simp
    note IH = "1.IH" [OF True pass [symmetric] refl nn res]
    from topo_pass_appends [OF pass] obtain placed
      where placed: "srt' = srt @ placed" "subseq placed (ops g)" by auto
    have layers: "topo_layers g srt flags = placed # topo_layers g srt' flags'"
      using True pass m placed by (subst topo_layers.simps) simp
    have "res = srt' @ concat (topo_layers g srt' flags')"
      using IH by blast
    then have "res = srt @ concat (placed # topo_layers g srt' flags')"
      using placed(1) by simp
    moreover have "\<forall>layer \<in> set (placed # topo_layers g srt' flags'). subseq layer (ops g)"
    proof
      fix layer assume "layer \<in> set (placed # topo_layers g srt' flags')"
      then have "layer = placed \<or> layer \<in> set (topo_layers g srt' flags')"
        by (rule set_ConsD)
      then show "subseq layer (ops g)" using IH placed(2) by blast
    qed
    ultimately show ?thesis
      unfolding layers by blast
  qed
qed

lemma edges_chain: "edges chain_graph = {(1, 2)}"
  by (auto simp: edges_iff producers_def chain_graph_def mk_op_def mk_tensor_def)

lemma eval_chain:
  "topo_sort chain_graph = (True, chain_graph\<lparr>ops := [1, 2], sorted_flag := True\<rparr>)"
  by (simp add: topo_sort_def topo_loop.simps placeable_def chain_graph_def mk_op_def
      mk_tensor_def)

lemma eval_chain_layers: "topo_layers chain_graph [] {} = [[1], [2]]"
  by (simp add: topo_layers.simps placeable_def chain_graph_def mk_op_def mk_tensor_def)

lemma edges_cycle: "(1, 2) \<in> edges cycle_graph" "(2, 1) \<in> edges cycle_graph"
  by (auto simp: edges_iff producers_def cycle_graph_def mk_op_def mk_tensor_def)

text \<open>
  Claim C1. Let the operators of the graph be distinct, let every producer of an
  input be an operator of the graph, let the producer-to-consumer edges be acyclic,
  and let the cached flag, when set, be truthful (the list is then in dependency
  order). Then \<open>topo_sort\<close> returns true; the graph changes in its operator list and
  its flag only; the new list holds the same operators, each once, and every
  operator stands after all producers of its inputs. Ties follow the original
  order: a list already in dependency order is returned as it is, and a sort that
  runs returns the concatenation of what the successive passes placed, each pass
  placing its operators in the order of the original list.
\<close>

theorem topo_sort_acyclic:
  assumes dist: "distinct (ops g)"
    and closed: "producers_closed g"
    and acyc: "acyclic (edges g)"
    and cache: "sorted_flag g \<longrightarrow> dependency_order g (ops g)"
  shows "\<exists>g'. topo_sort g = (True, g')
           \<and> g' = g\<lparr>ops := ops g', sorted_flag := True\<rparr>
           \<and> set (ops g') = set (ops g) \<and> distinct (ops g')
           \<and> dependency_order g' (ops g')
           \<and> (dependency_order g (ops g) \<longrightarrow> ops g' = ops g)
           \<and> (\<not> sorted_flag g \<longrightarrow>
                  ops g' = concat (topo_layers g [] {})
                  \<and> (\<forall>layer \<in> set (topo_layers g [] {}). subseq layer (ops g)))"
proof (cases "sorted_flag g")
  case True
  then have "topo_sort g = (True, g)" by (simp add: topo_sort_def)
  moreover have "g = g\<lparr>ops := ops g, sorted_flag := True\<rparr>" using True by simp
  ultimately show ?thesis using True cache dist by auto
next
  case False
  from closed have closed': "\<forall>c \<in> set (ops g). set (producers g c) \<subseteq> set (ops g)"
    by (simp add: producers_closed_def)
  from topo_loop_acyclic [OF acyc closed' dist sort_inv_init]
  obtain res where res: "topo_loop g [] {} = Some res" and inv: "sort_inv g res (set res)"
    and len: "length (ops g) \<le> length res" by blast
  let ?g' = "g\<lparr>ops := res, sorted_flag := True\<rparr>"
  have ts: "topo_sort g = (True, ?g')"
    using False res by (simp add: topo_sort_def)
  have dres: "distinct res" and sub: "set res \<subseteq> set (ops g)" and dep: "dependency_order g res"
    using inv by (simp_all add: sort_inv_def)
  have "card (set (ops g)) \<le> card (set res)"
    using len dist dres by (simp add: distinct_card)
  with sub have seteq: "set res = set (ops g)"
    by (simp add: card_seteq)
  have dep': "dependency_order ?g' res"
    using dep by (simp add: dependency_order_store [of ?g' g])
  have stable: "dependency_order g (ops g) \<longrightarrow> res = ops g"
    using topo_loop_ordered [OF _ dist] res by auto
  note layers = topo_loop_layers [OF res]
  show ?thesis
    using ts seteq dres dep' stable layers by auto
qed

theorem topo_sort_acyclic_witness:
  "distinct (ops chain_graph) \<and> producers_closed chain_graph \<and> acyclic (edges chain_graph)
   \<and> \<not> sorted_flag chain_graph
   \<and> topo_sort chain_graph = (True, chain_graph\<lparr>ops := [1, 2], sorted_flag := True\<rparr>)
   \<and> dependency_order chain_graph [1, 2]
   \<and> [1, 2] = concat (topo_layers chain_graph [] {})"
proof -
  have h1: "distinct (ops chain_graph)" by (simp add: chain_graph_def)
  have h2: "producers_closed chain_graph"
    by (simp add: producers_closed_def producers_def chain_graph_def mk_op_def mk_tensor_def)
  have h3: "acyclic (edges chain_graph)"
    by (rule acyclicI_order [where f = "\<lambda>n. 10 - n"]) (simp add: edges_chain)
  have h0: "\<not> sorted_flag chain_graph" by (simp add: chain_graph_def)
  then have h4: "sorted_flag chain_graph \<longrightarrow> dependency_order chain_graph (ops chain_graph)"
    by simp
  from topo_sort_acyclic [OF h1 h2 h3 h4] h0 obtain g'
    where g': "topo_sort chain_graph = (True, g')" "dependency_order g' (ops g')"
      "ops g' = concat (topo_layers chain_graph [] {})"
    by blast
  from g'(1) eval_chain have eq: "g' = chain_graph\<lparr>ops := [1, 2], sorted_flag := True\<rparr>"
    by simp
  have "dependency_order chain_graph [1, 2]"
    using g'(2) eq dependency_order_store [of g' chain_graph "[1, 2]"] by simp
  moreover have "[1, 2] = concat (topo_layers chain_graph [] {})"
    using g'(3) eq by simp
  ultimately show ?thesis using h1 h2 h3 h0 eval_chain by simp
qed

text \<open>
  Claim C6. Let the producer-to-consumer edges of the graph contain a directed
  cycle, and let the cached flag, when set, be truthful (with a cycle it is then not
  set). Then \<open>topo_sort\<close> returns false and the graph, its operator list included,
  is exactly as it was before the call.
\<close>

theorem topo_sort_cycle:
  assumes cyc: "(x, x) \<in> (edges g)\<^sup>+"
    and cache: "sorted_flag g \<longrightarrow> dependency_order g (ops g)"
  shows "topo_sort g = (False, g)"
proof -
  have x: "x \<in> set (ops g)" using cyc by (rule cycle_in_ops)
  have "\<not> sorted_flag g"
  proof
    assume "sorted_flag g"
    with cache have "dependency_order g (ops g)" by simp
    from cycle_not_ordered [OF this cyc] x show False by simp
  qed
  moreover have "topo_loop g [] {} = None"
    using cyc sort_inv_init by (rule topo_loop_cycle)
  ultimately show ?thesis by (simp add: topo_sort_def)
qed

theorem topo_sort_cycle_witness:
  "(1, 1) \<in> (edges cycle_graph)\<^sup>+ \<and> \<not> sorted_flag cycle_graph
   \<and> topo_sort cycle_graph = (False, cycle_graph)
   \<and> ops (snd (topo_sort cycle_graph)) = [1, 2]"
proof -
  have h1: "(1, 1) \<in> (edges cycle_graph)\<^sup>+"
    using edges_cycle by (blast intro: trancl.intros)
  have h0: "\<not> sorted_flag cycle_graph" by (simp add: cycle_graph_def)
  then have h2: "sorted_flag cycle_graph \<longrightarrow> dependency_order cycle_graph (ops cycle_graph)"
    by simp
  from topo_sort_cycle [OF h1 h2] h1 h0 show ?thesis
    by (simp add: cycle_graph_def)
qed

section \<open>Properties of the optimizer\<close>

subsection \<open>The fields a method reads and writes\<close>

lemmas method_defs = upd_op_def upd_tensor_def replaceInput_def addPredecessors_def
  removePredecessors_def addSuccessors_def removeSuccessors_def setTransA_def setTransB_def
  addTarget_def removeTarget_def removeTensor_def removeOperator_def














subsection \<open>Matches depend on few fields; scans without a match\<close>

lemma getOutput_static: "same_static g g' \<Longrightarrow> getOutput g' p = getOutput g p"
  by (simp add: getOutput_def same_static_def)


text \<open>Scans that pass positions without a match.\<close>

lemma rule1_skip:
  "n - i = d \<Longrightarrow> i \<le> n \<Longrightarrow> n \<le> length (ops g)
     \<Longrightarrow> \<forall>j. i \<le> j \<and> j < n \<longrightarrow> pair_match g (ops g ! j) = Inr None
     \<Longrightarrow> removeRedundantTransposePairs_from i c g = removeRedundantTransposePairs_from n c g"
proof (induction d arbitrary: i)
  case 0
  then show ?case by simp
next
  case (Suc d)
  then have i: "i < n" "i < length (ops g)" and m: "pair_match g (ops g ! i) = Inr None"
    by auto
  have "removeRedundantTransposePairs_from i c g = removeRedundantTransposePairs_from (i + 1) c g"
    using i m by (subst removeRedundantTransposePairs_from.simps) simp
  also have "\<dots> = removeRedundantTransposePairs_from n c g"
    using Suc.prems by (intro Suc.IH) auto
  finally show ?case .
qed

lemma rule1_quiet:
  assumes "\<forall>p \<in> set (ops g). pair_match g p = Inr None"
  shows "removeRedundantTransposePairs_from i c g = Inr (g, c)"
proof (cases "i \<le> length (ops g)")
  case True
  have "removeRedundantTransposePairs_from i c g
      = removeRedundantTransposePairs_from (length (ops g)) c g"
    using True assms by (intro rule1_skip [OF refl]) auto
  also have "\<dots> = Inr (g, c)"
    by (subst removeRedundantTransposePairs_from.simps) simp
  finally show ?thesis .
next
  case False
  then show ?thesis by (subst removeRedundantTransposePairs_from.simps) simp
qed

lemma fuse_step_quiet:
  assumes "opType (opStore g (ops g ! j)) = MatMul
     \<Longrightarrow> fuse_match g (ops g ! j) 0 = Inr None \<and> fuse_match g (ops g ! j) 1 = Inr None"
  shows "fuse_step g j c = Inr (g, c)"
  using assms by (auto simp: fuse_step_def fuse_input_def Let_def)

lemma rule2_skip:
  "n - i = d \<Longrightarrow> i \<le> n \<Longrightarrow> n \<le> length (ops g)
     \<Longrightarrow> \<forall>j. i \<le> j \<and> j < n \<longrightarrow> opType (opStore g (ops g ! j)) = MatMul
            \<longrightarrow> fuse_match g (ops g ! j) 0 = Inr None \<and> fuse_match g (ops g ! j) 1 = Inr None
     \<Longrightarrow> fuseTransposeIntoMatmul_from i c g = fuseTransposeIntoMatmul_from n c g"
proof (induction d arbitrary: i)
  case 0
  then show ?case by simp
next
  case (Suc d)
  then have i: "i < n" "i < length (ops g)" by auto
  have "fuse_step g i c = Inr (g, c)"
    using Suc.prems(4) i by (intro fuse_step_quiet) auto
  then have "fuseTransposeIntoMatmul_from i c g = fuseTransposeIntoMatmul_from (i + 1) c g"
    using i by (subst fuseTransposeIntoMatmul_from.simps) simp
  also have "\<dots> = fuseTransposeIntoMatmul_from n c g"
    using Suc.prems by (intro Suc.IH) auto
  finally show ?case .
qed

lemma rule2_quiet:
  assumes "\<forall>m \<in> set (ops g). opType (opStore g m) = MatMul
     \<longrightarrow> fuse_match g m 0 = Inr None \<and> fuse_match g m 1 = Inr None"
  shows "fuseTransposeIntoMatmul_from i c g = Inr (g, c)"
proof (cases "i \<le> length (ops g)")
  case True
  have "fuseTransposeIntoMatmul_from i c g
      = fuseTransposeIntoMatmul_from (length (ops g)) c g"
    using True assms by (intro rule2_skip [OF refl]) auto
  also have "\<dots> = Inr (g, c)"
    by (subst fuseTransposeIntoMatmul_from.simps) simp
  finally show ?thesis .
next
  case False
  then show ?thesis by (subst fuseTransposeIntoMatmul_from.simps) simp
qed

lemma optimize_loop_quiet: "quiet g \<Longrightarrow> optimize_loop n g = Inr g"
  by (subst optimize_loop.simps)
    (simp add: quiet_def removeRedundantTransposePairs_def fuseTransposeIntoMatmul_def
      rule1_quiet rule2_quiet)

subsection \<open>The two tests on permutations, in words\<close>





subsection \<open>What a match says\<close>







subsection \<open>More of what the rewrites keep\<close>








subsection \<open>Invariants of the scans and of the outer loop\<close>






subsection \<open>Positions of a tensor among the inputs\<close>























subsection \<open>A transpose pair that has been removed\<close>








subsection \<open>A transpose pair that the scan meets first\<close>




subsection \<open>A transpose pair that waits while other places are rewritten\<close>














subsection \<open>The place of a fusion\<close>













subsection \<open>Evaluating \<open>optimize\<close> on the example graphs\<close>

lemmas optimize_eval = optimize_def optimize_loop.simps removeRedundantTransposePairs_def
  removeRedundantTransposePairs_from.simps fuseTransposeIntoMatmul_def
  fuseTransposeIntoMatmul_from.simps pair_match_def rewrite_pair_def fuse_step_def
  fuse_input_def fuse_match_def fuse_rewrite_def
  getOutput_def getInput_def isInversePermutation_def isLastTwoDimsSwap_def at_def
  method_defs add_ref_def remove_ref_def mk_transpose_def mk_op_def mk_tensor_def Let_def





subsection \<open>Transpose pairs\<close>


text \<open>
  The same chain with the second transpose listed first: now the first and the second
  transpose form a pair as the claim describes and their input, tensor 20, stays in
  the graph, but the scan meets the second transpose first and removes it together
  with the third. The first transpose and its output tensor 21 stay in the graph.
\<close>

lemma transpose_pair_scan_order:
  "opType (opStore (triple_graph\<lparr>ops := [2, 1, 3]\<rparr>) 1) = Transpose
   \<and> inputs (opStore (triple_graph\<lparr>ops := [2, 1, 3]\<rparr>) 1) = [20]
   \<and> outputs (opStore (triple_graph\<lparr>ops := [2, 1, 3]\<rparr>) 1) = [21]
   \<and> targets (tensorStore (triple_graph\<lparr>ops := [2, 1, 3]\<rparr>) 21) = [2]
   \<and> opType (opStore (triple_graph\<lparr>ops := [2, 1, 3]\<rparr>) 2) = Transpose
   \<and> isInversePermutation (permute (opStore (triple_graph\<lparr>ops := [2, 1, 3]\<rparr>) 1))
        (permute (opStore (triple_graph\<lparr>ops := [2, 1, 3]\<rparr>) 2)) = Inr True
   \<and> map_sum id ops (optimize (triple_graph\<lparr>ops := [2, 1, 3]\<rparr>)) = Inr [1]
   \<and> map_sum id tensors (optimize (triple_graph\<lparr>ops := [2, 1, 3]\<rparr>)) = Inr [20, 21]"
  by (simp add: optimize_eval triple_graph_def)



subsection \<open>Transpose into matmul\<close>


text \<open>
  When both inputs of the matmul are the output of the transpose, the fusion of the
  first input replaces the tensor at both inputs: the flag of the second input is
  not toggled.
\<close>

lemma transpose_matmul_shared_input:
  "opType (opStore shared_input_matmul_graph 3) = MatMul
   \<and> inputs (opStore shared_input_matmul_graph 3) = [21, 21]
   \<and> \<not> transB (opStore shared_input_matmul_graph 3)
   \<and> fuse_match shared_input_matmul_graph 3 1 = Inr (Some 1)
   \<and> map_sum id (\<lambda>g. (transA (opStore g 3), transB (opStore g 3), inputs (opStore g 3)))
        (optimize shared_input_matmul_graph) = Inr (True, False, [20, 20])"
  by (simp add: optimize_eval shared_input_matmul_graph_def)



end
